theory Spec2Isabelle
  imports Complex_Main
begin

section \<open>Command line clean-up (package cli)\<close>

text \<open>
  Go strings are byte sequences; they are modelled as \<open>string\<close> (a list of
  characters, one per byte). The three functions of the standard package
  \<^verbatim>\<open>strings\<close> that \<^verbatim>\<open>CleanUpArgs\<close> calls are written out as the library
  implements them on ASCII arguments.
\<close>

definition HasPrefix :: "string \<Rightarrow> string \<Rightarrow> bool" where
  "HasPrefix s p = (length p \<le> length s \<and> take (length p) s = p)"

definition TrimLeft :: "string \<Rightarrow> string \<Rightarrow> string" where
  "TrimLeft s cutset = dropWhile (\<lambda>c. c \<in> set cutset) s"

definition TrimPrefix :: "string \<Rightarrow> string \<Rightarrow> string" where
  "TrimPrefix s p = (if HasPrefix s p then drop (length p) s else s)"

text \<open>
  The body of the \<^verbatim>\<open>switch\<close> of \<^verbatim>\<open>CleanUpArgs\<close>: the value of \<^verbatim>\<open>arg\<close> that
  is appended to \<^verbatim>\<open>out\<close>.
\<close>

definition rewriteArg :: "string \<Rightarrow> string" where
  "rewriteArg arg =
     (if arg = ''--authkey'' \<or> arg = ''-authkey'' then ''--auth-key''
      else if HasPrefix arg ''--authkey='' \<or> HasPrefix arg ''-authkey='' then
        (let arg1 = TrimLeft arg ''-'';
             arg2 = TrimPrefix arg1 ''authkey=''
         in ''--auth-key='' @ arg2)
      else arg)"

text \<open>The \<^verbatim>\<open>for ... range args\<close> loop, with \<^verbatim>\<open>out\<close> as the accumulator.\<close>

fun CleanUpArgs_loop :: "string list \<Rightarrow> string list \<Rightarrow> string list" where
  "CleanUpArgs_loop out [] = out"
| "CleanUpArgs_loop out (arg # args) = CleanUpArgs_loop (out @ [rewriteArg arg]) args"

definition CleanUpArgs :: "string list \<Rightarrow> string list" where
  "CleanUpArgs args = CleanUpArgs_loop [] args"

section \<open>Read-only views (package views)\<close>

text \<open>
  A Go slice or map that may be \<^verbatim>\<open>nil\<close> is an \<open>option\<close>: \<open>None\<close> is \<^verbatim>\<open>nil\<close>,
  \<open>Some []\<close> is an empty, non-nil slice. A \<^verbatim>\<open>[]byte\<close> is a \<open>string\<close>. An
  \<^verbatim>\<open>error\<close> return is an \<open>error option\<close>, \<open>None\<close> for \<^verbatim>\<open>nil\<close>; \<^verbatim>\<open>errors.New\<close>
  is the constructor of the error type.

  \<^verbatim>\<open>json.Unmarshal\<close> belongs to the standard library. It is a parameter of every
  function that calls it: given the input and the current value of the container
  it returns the error and the value the container holds afterwards.

  The methods have pointer receivers and assign to the field of the view; the
  model returns the error together with the view after the call.
\<close>

datatype error = errors_New string

type_synonym bytes = string

type_synonym 'c json_Unmarshal = "bytes \<Rightarrow> 'c \<Rightarrow> error option \<times> 'c"

definition unmarshalSliceFromJSON ::
    "'a list option json_Unmarshal \<Rightarrow> bytes \<Rightarrow> 'a list option \<Rightarrow> error option \<times> 'a list option" where
  "unmarshalSliceFromJSON unmarshal b x =
     (if x \<noteq> None then (Some (errors_New ''already initialized''), x)
      else if length b = 0 then (None, x)
      else unmarshal b x)"

text \<open>
  The views are structs with the one unexported field that the source names with a
  Cyrillic letter; here it is \<open>zh\<close>, prefixed by the name of the view.
\<close>

record 'b ByteSlice =
  ByteSlice_zh :: "'b list option"

record 'a SliceView =
  SliceView_zh :: "'a list option"

record 'a Slice =
  Slice_zh :: "'a list option"

record ('k, 'v) Map =
  Map_zh :: "('k \<rightharpoonup> 'v) option"

definition ByteSlice_UnmarshalJSON ::
    "'b list option json_Unmarshal \<Rightarrow> 'b ByteSlice \<Rightarrow> bytes \<Rightarrow> error option \<times> 'b ByteSlice" where
  "ByteSlice_UnmarshalJSON unmarshal v b =
     (if ByteSlice_zh v \<noteq> None then (Some (errors_New ''already initialized''), v)
      else (case unmarshal b (ByteSlice_zh v) of (err, x) \<Rightarrow> (err, v\<lparr>ByteSlice_zh := x\<rparr>)))"

definition SliceView_UnmarshalJSON ::
    "'a list option json_Unmarshal \<Rightarrow> 'a SliceView \<Rightarrow> bytes \<Rightarrow> error option \<times> 'a SliceView" where
  "SliceView_UnmarshalJSON unmarshal v b =
     (case unmarshalSliceFromJSON unmarshal b (SliceView_zh v) of
        (err, x) \<Rightarrow> (err, v\<lparr>SliceView_zh := x\<rparr>))"

definition Slice_UnmarshalJSON ::
    "'a list option json_Unmarshal \<Rightarrow> 'a Slice \<Rightarrow> bytes \<Rightarrow> error option \<times> 'a Slice" where
  "Slice_UnmarshalJSON unmarshal v b =
     (case unmarshalSliceFromJSON unmarshal b (Slice_zh v) of
        (err, x) \<Rightarrow> (err, v\<lparr>Slice_zh := x\<rparr>))"

definition Map_UnmarshalJSON ::
    "('k \<rightharpoonup> 'v) option json_Unmarshal \<Rightarrow> ('k, 'v) Map \<Rightarrow> bytes \<Rightarrow> error option \<times> ('k, 'v) Map" where
  "Map_UnmarshalJSON unmarshal m b =
     (if Map_zh m \<noteq> None then (Some (errors_New ''already initialized''), m)
      else (case unmarshal b (Map_zh m) of (err, x) \<Rightarrow> (err, m\<lparr>Map_zh := x\<rparr>)))"

section \<open>The fake clock of the prober tests\<close>

text \<open>
  A \<^verbatim>\<open>time.Time\<close> is the number of nanoseconds since the Unix epoch and a
  \<^verbatim>\<open>time.Duration\<close> a number of nanoseconds, both unbounded integers: nothing
  below depends on the ends of the 64-bit ranges of the two types.
  \<^verbatim>\<open>a.After(b)\<close> is \<open>b < a\<close> and \<^verbatim>\<open>a.Add(d)\<close> is \<open>a + d\<close>.
\<close>

type_synonym time = int
type_synonym duration = int

definition Millisecond :: duration where
  "Millisecond = 1000000"

definition Second :: duration where
  "Second = 1000000000"

definition epoch :: time where
  "epoch = 0"

text \<open>
  Two constants of the tests: the interval of their probes and the time that the
  target of \<^verbatim>\<open>TestPrometheus\<close> takes.
\<close>

definition probeInterval :: duration where
  "probeInterval = 8 * Second"


text \<open>
  The channel of a ticker is made with capacity 1, so it holds at most one tick:
  \<open>None\<close> is the empty channel, \<open>Some tick\<close> one that holds an unconsumed tick.
  The mutexes are left out: every method runs as one step.
\<close>

record fakeTicker =
  ch :: "time option"
  interval :: duration
  "next" :: time
  stopped :: bool

text \<open>
  The clock holds pointers to its tickers, and so do the users of the tickers. The
  list \<open>tickers\<close> is the store of these objects, and a pointer to a ticker is its
  index in the list; the list only grows, so an index stays valid.
\<close>

record fakeTime =
  curTime :: time
  tickers :: "fakeTicker list"

definition newFakeTime :: fakeTime where
  "newFakeTime = \<lparr>curTime = epoch, tickers = []\<rparr>"

definition Now :: "fakeTime \<Rightarrow> time" where
  "Now t = curTime t"

text \<open>
  \<open>NewTicker\<close> returns the new ticker (its index) and the clock that holds it.
  The broadcast on the condition variable wakes goroutines that wait for a
  ticker; it changes nothing in the clock.
\<close>

definition NewTicker :: "duration \<Rightarrow> fakeTime \<Rightarrow> nat \<times> fakeTime" where
  "NewTicker d t =
     (let ret = \<lparr>ch = None, interval = d, next = curTime t + d, stopped = False\<rparr>
      in (length (tickers t), t\<lparr>tickers := tickers t @ [ret]\<rparr>))"

definition Stop :: "fakeTicker \<Rightarrow> fakeTicker" where
  "Stop t = t\<lparr>stopped := True\<rparr>"

text \<open>
  The loop at the end of \<^verbatim>\<open>fire\<close>,
  \<^verbatim>\<open>for now.After(t.next) { t.next = t.next.Add(t.interval) }\<close>,
  need not terminate: the result \<open>None\<close> stands for a call that never returns.
\<close>

partial_function (option) fire_loop :: "time \<Rightarrow> duration \<Rightarrow> time \<Rightarrow> time option" where
  "fire_loop now d n = (if n < now then fire_loop now d (n + d) else Some n)"

declare fire_loop.simps [code]

text \<open>
  The \<^verbatim>\<open>select\<close> with a \<^verbatim>\<open>default\<close> branch: the send happens if the channel has
  room and is skipped otherwise.
\<close>

definition send_or_drop :: "time \<Rightarrow> time option \<Rightarrow> time option" where
  "send_or_drop now c = (case c of None \<Rightarrow> Some now | Some pending \<Rightarrow> Some pending)"

definition fire :: "time \<Rightarrow> fakeTicker \<Rightarrow> fakeTicker option" where
  "fire now t =
     (let c = send_or_drop now (ch t)
      in case fire_loop now (interval t) (next t) of
           None \<Rightarrow> None
         | Some n \<Rightarrow> Some (t\<lparr>ch := c, next := n\<rparr>))"

text \<open>The loop of \<^verbatim>\<open>Advance\<close> over the tickers, in the order of their creation.\<close>

fun fire_due :: "time \<Rightarrow> fakeTicker list \<Rightarrow> fakeTicker list option" where
  "fire_due cur [] = Some []"
| "fire_due cur (tick # rest) =
     (case (if next tick < cur then fire cur tick else Some tick) of
        None \<Rightarrow> None
      | Some tick' \<Rightarrow>
          (case fire_due cur rest of
             None \<Rightarrow> None
           | Some rest' \<Rightarrow> Some (tick' # rest')))"

definition Advance :: "duration \<Rightarrow> fakeTime \<Rightarrow> fakeTime option" where
  "Advance d t =
     (let cur = curTime t + d
      in case fire_due cur (tickers t) of
           None \<Rightarrow> None
         | Some ts \<Rightarrow> Some (t\<lparr>curTime := cur, tickers := ts\<rparr>))"

definition activeTickers :: "fakeTime \<Rightarrow> nat" where
  "activeTickers t =
     fold (\<lambda>tick count. if \<not> stopped tick then count + 1 else count) (tickers t) 0"

text \<open>
  \<^verbatim>\<open>Stop\<close> called through a pointer to a ticker of the clock, and a receive from
  the channel that \<^verbatim>\<open>Chan\<close> returns, taken without blocking: it yields the pending
  tick, if there is one, and empties the channel.
\<close>

definition Stop_at :: "nat \<Rightarrow> fakeTime \<Rightarrow> fakeTime" where
  "Stop_at h t = t\<lparr>tickers := (tickers t)[h := Stop (tickers t ! h)]\<rparr>"

definition recv_at :: "nat \<Rightarrow> fakeTime \<Rightarrow> time option \<times> fakeTime" where
  "recv_at h t =
     (ch (tickers t ! h), t\<lparr>tickers := (tickers t)[h := (tickers t ! h)\<lparr>ch := None\<rparr>]\<rparr>)"

text \<open>
  What a user of the clock can do with it, one call after the other; \<open>clock_run\<close>
  is \<open>None\<close> when one of the calls never returns. In a well-formed sequence of
  calls every pointer to a ticker comes from an earlier \<open>NewTicker\<close>:
  \<open>wf_ops n ops\<close> says so for a clock that holds \<open>n\<close> tickers already, and
  \<open>created ops\<close> counts the tickers that the calls create.
\<close>

datatype clock_op = OpNewTicker duration | OpStop nat | OpAdvance duration | OpRecv nat

fun clock_step :: "clock_op \<Rightarrow> fakeTime \<Rightarrow> fakeTime option" where
  "clock_step (OpNewTicker d) t = Some (snd (NewTicker d t))"
| "clock_step (OpStop h) t = Some (Stop_at h t)"
| "clock_step (OpAdvance d) t = Advance d t"
| "clock_step (OpRecv h) t = Some (snd (recv_at h t))"

fun clock_run :: "clock_op list \<Rightarrow> fakeTime \<Rightarrow> fakeTime option" where
  "clock_run [] t = Some t"
| "clock_run (x # ops) t =
     (case clock_step x t of None \<Rightarrow> None | Some t' \<Rightarrow> clock_run ops t')"

fun wf_ops :: "nat \<Rightarrow> clock_op list \<Rightarrow> bool" where
  "wf_ops n [] = True"
| "wf_ops n (OpNewTicker d # ops) = wf_ops (Suc n) ops"
| "wf_ops n (OpStop h # ops) = (h < n \<and> wf_ops n ops)"
| "wf_ops n (OpAdvance d # ops) = wf_ops n ops"
| "wf_ops n (OpRecv h # ops) = (h < n \<and> wf_ops n ops)"

fun created :: "clock_op list \<Rightarrow> nat" where
  "created [] = 0"
| "created (OpNewTicker d # ops) = Suc (created ops)"
| "created (OpStop h # ops) = created ops"
| "created (OpAdvance d # ops) = created ops"
| "created (OpRecv h # ops) = created ops"

section \<open>The prober registry and the probe run loop\<close>

text \<open>
  The test file of package prober is among the source files; the types
  \<^verbatim>\<open>Prober\<close> and \<^verbatim>\<open>Probe\<close> that it tests, and their methods, are not. What
  follows is written from sections 3, 4 and 6 of the specification and runs on the
  fake clock above. Each run loop is a goroutine of its own; the model lets one
  goroutine run at a time, from one point where it suspends to the next, and leaves
  the order of the goroutines to the caller (the tests wait for the goroutines to
  settle before they look). The startup spread is left out: the registry is the
  one that the tests build without \<^verbatim>\<open>WithSpread\<close>.
\<close>

text \<open>
  Modelled from the spec: the target capability (the type behind \<^verbatim>\<open>FuncProbe\<close>,
  which is not among the sources), ``execute an attempt and return success or a
  failure reason''. The targets of the tests either return at once or advance the
  fake clock first; a target is the list of its clock advances followed by its
  outcome, \<open>None\<close> for success.
\<close>

datatype target = Return "string option" | AdvanceClock duration target

text \<open>
  Modelled from the spec: the result fields of \<^verbatim>\<open>Probe\<close> (not among the sources),
  \<open>lastResult\<close>, the ``latest snapshot --- start time, end time, success flag,
  latency''.
\<close>

record Snapshot =
  start_time :: time
  end_time :: time
  success :: bool
  latency :: duration

text \<open>
  Modelled from the spec: the states of the run loop \<^verbatim>\<open>Probe.loop\<close> (not among
  the sources) at which it is suspended or has ended. \<open>Waiting k\<close> holds the
  ticker that the loop waits on.
\<close>

datatype phase = PendingStart | Waiting nat | Stopped

text \<open>
  Modelled from the spec: the struct \<^verbatim>\<open>Probe\<close> (not among the sources), as section
  3 describes it. \<open>probe_id\<close> stands for the identity of the object, which is
  what the handle returned by \<^verbatim>\<open>Run\<close> is.
\<close>

record Probe =
  probe_id :: nat
  name :: string
  probe_interval :: duration
  labels :: "(string \<times> string) list"
  target :: target
  lastResult :: "Snapshot option"
  phase :: phase

text \<open>
  Modelled from the spec: the struct \<^verbatim>\<open>Prober\<close> (not among the sources), as
  section 3 describes it, with the clock that it was given. The map from names to
  probes is the list \<open>probes\<close>, in the order of registration.
\<close>

record Prober =
  clk :: fakeTime
  probes :: "Probe list"
  metricsNamespace :: string
  onceMode :: bool
  next_id :: nat

text \<open>
  Modelled from the spec: the constructor \<^verbatim>\<open>newForTest\<close> (not among the sources):
  the registry as the tests construct it, empty, with the default namespace and
  looping probes.
\<close>

definition newForTest :: "fakeTime \<Rightarrow> Prober" where
  "newForTest c =
     \<lparr>clk = c, probes = [], metricsNamespace = ''prober'', onceMode = False, next_id = 0\<rparr>"

text \<open>
  Modelled from the spec: \<^verbatim>\<open>WithOnce\<close> (not among the sources), the once-mode
  option of the registry.
\<close>

definition WithOnce :: "bool \<Rightarrow> Prober \<Rightarrow> Prober" where
  "WithOnce s pr = pr\<lparr>onceMode := s\<rparr>"

text \<open>
  Modelled from the spec: \<^verbatim>\<open>WithMetricNamespace\<close> (not among the sources), the
  namespace option of the registry.
\<close>

definition WithMetricNamespace :: "string \<Rightarrow> Prober \<Rightarrow> Prober" where
  "WithMetricNamespace ns pr = pr\<lparr>metricsNamespace := ns\<rparr>"

text \<open>
  Modelled from the spec: the lookup in the map of the registry (not among the
  sources) by the name of a probe, its key.
\<close>

definition lookup_name :: "string \<Rightarrow> Probe list \<Rightarrow> Probe option" where
  "lookup_name n ps = find (\<lambda>p. name p = n) ps"

text \<open>
  Modelled from the spec: the registered probe that a handle denotes, if any; the
  registry is not among the sources.
\<close>

definition lookup_id :: "nat \<Rightarrow> Probe list \<Rightarrow> Probe option" where
  "lookup_id h ps = find (\<lambda>p. probe_id p = h) ps"

text \<open>
  Modelled from the spec: the end of \<^verbatim>\<open>Probe.loop\<close> (not among the sources),
  ``stopping cancels the ticker''.
\<close>

definition stop_probe :: "Probe \<Rightarrow> fakeTime \<Rightarrow> fakeTime" where
  "stop_probe p c = (case phase p of Waiting k \<Rightarrow> Stop_at k c | _ \<Rightarrow> c)"

text \<open>
  Modelled from the spec: \<^verbatim>\<open>Probe.Close\<close> (not among the sources), which stops
  the probe and removes it from the registry and is a no-op on a probe that is no
  longer registered.
\<close>

definition Close :: "nat \<Rightarrow> Prober \<Rightarrow> Prober" where
  "Close h pr =
     (case lookup_id h (probes pr) of
        None \<Rightarrow> pr
      | Some p \<Rightarrow> pr\<lparr>clk := stop_probe p (clk pr),
                     probes := filter (\<lambda>q. probe_id q \<noteq> h) (probes pr)\<rparr>)"

text \<open>
  Modelled from the spec: the precondition violation of \<^verbatim>\<open>Prober.Run\<close> (not among
  the sources).
\<close>

datatype run_error = NonPositiveInterval

text \<open>
  Modelled from the spec: the creation of a \<^verbatim>\<open>Probe\<close> (not among the sources),
  before its run loop has run.
\<close>

definition newProbe :: "nat \<Rightarrow> string \<Rightarrow> duration \<Rightarrow> (string \<times> string) list \<Rightarrow> target \<Rightarrow> Probe" where
  "newProbe h n d ls tg =
     \<lparr>probe_id = h, name = n, probe_interval = d, labels = ls, target = tg,
      lastResult = None, phase = PendingStart\<rparr>"

text \<open>
  Modelled from the spec: \<^verbatim>\<open>Prober.Run(name, interval, labels, target)\<close> (not
  among the sources). A non-positive interval fails at once. Otherwise a probe
  registered under the same name is stopped and removed, the new probe is stored
  with its run loop at its entry, and its handle is returned.
\<close>

definition Run ::
    "string \<Rightarrow> duration \<Rightarrow> (string \<times> string) list \<Rightarrow> target \<Rightarrow> Prober \<Rightarrow> run_error + nat \<times> Prober" where
  "Run n d ls tg pr =
     (if d \<le> 0 then Inl NonPositiveInterval
      else
        (let pr1 = (case lookup_name n (probes pr) of
                      None \<Rightarrow> pr
                    | Some old \<Rightarrow> Close (probe_id old) pr);
             p = newProbe (next_id pr1) n d ls tg
         in Inr (probe_id p, pr1\<lparr>probes := probes pr1 @ [p], next_id := Suc (next_id pr1)\<rparr>)))"

text \<open>
  Modelled from the spec: \<^verbatim>\<open>Prober.activeProbes\<close> (not among the sources), the
  count of the probes not yet stopped; \<^verbatim>\<open>Close\<close> removes a probe when it stops
  it.
\<close>

definition activeProbes :: "Prober \<Rightarrow> nat" where
  "activeProbes pr = length (probes pr)"

text \<open>
  Modelled from the spec: the call of the target by \<^verbatim>\<open>Probe.loop\<close> (not among
  the sources), on the fake clock. It is \<open>None\<close> when an \<^verbatim>\<open>Advance\<close> of the
  target never returns.
\<close>

fun exec_target :: "target \<Rightarrow> fakeTime \<Rightarrow> (string option \<times> fakeTime) option" where
  "exec_target (Return failure) c = Some (failure, c)"
| "exec_target (AdvanceClock d tg) c =
     (case Advance d c of None \<Rightarrow> None | Some c' \<Rightarrow> exec_target tg c')"

text \<open>
  Modelled from the spec: the state Running of \<^verbatim>\<open>Probe.loop\<close> (not among the
  sources), ``record start = Now(); on completion record end = Now(), success =
  (no failure returned), latency = end - start; write this snapshot into
  lastResult''.
\<close>

definition run_iteration :: "Probe \<Rightarrow> fakeTime \<Rightarrow> (Probe \<times> fakeTime) option" where
  "run_iteration p c =
     (let start = Now c
      in case exec_target (target p) c of
           None \<Rightarrow> None
         | Some (failure, c') \<Rightarrow>
             (let end = Now c'
              in Some (p\<lparr>lastResult := Some \<lparr>start_time = start, end_time = end,
                                               success = (failure = None),
                                               latency = end - start\<rparr>\<rparr>, c')))"

text \<open>
  Modelled from the spec: the run loop \<^verbatim>\<open>Probe.loop\<close> (not among the sources),
  from one suspension to the next. At its entry the loop runs the first iteration
  at once; in once-mode it then ends, otherwise it creates its ticker and waits. A
  waiting loop runs an iteration if its ticker has a tick for it and stays
  suspended if not.
\<close>

definition loop_step :: "bool \<Rightarrow> Probe \<Rightarrow> fakeTime \<Rightarrow> (Probe \<times> fakeTime) option" where
  "loop_step once p c =
     (case phase p of
        PendingStart \<Rightarrow>
          (case run_iteration p c of
             None \<Rightarrow> None
           | Some (p1, c1) \<Rightarrow>
               if once then Some (p1\<lparr>phase := Stopped\<rparr>, c1)
               else (case NewTicker (probe_interval p1) c1 of
                       (k, c2) \<Rightarrow> Some (p1\<lparr>phase := Waiting k\<rparr>, c2)))
      | Waiting k \<Rightarrow>
          (case recv_at k c of
             (None, c1) \<Rightarrow> Some (p, c1)
           | (Some tick, c1) \<Rightarrow> run_iteration p c1)
      | Stopped \<Rightarrow> Some (p, c))"

text \<open>
  Modelled from the spec: the goroutine of \<^verbatim>\<open>Probe.loop\<close> (not among the sources)
  for the probe with handle \<open>h\<close> is scheduled and runs to its next suspension.
  Nothing happens if the probe is not registered.
\<close>

definition Step :: "nat \<Rightarrow> Prober \<Rightarrow> Prober option" where
  "Step h pr =
     (case lookup_id h (probes pr) of
        None \<Rightarrow> Some pr
      | Some p \<Rightarrow>
          (case loop_step (onceMode pr) p (clk pr) of
             None \<Rightarrow> None
           | Some (p', c') \<Rightarrow>
               Some (pr\<lparr>clk := c',
                        probes := map (\<lambda>q. if probe_id q = h then p' else q) (probes pr)\<rparr>)))"

text \<open>
  Modelled from the spec: the registry (not among the sources) shares its clock
  with the test, which advances it.
\<close>

definition AdvanceTime :: "duration \<Rightarrow> Prober \<Rightarrow> Prober option" where
  "AdvanceTime d pr = (case Advance d (clk pr) of None \<Rightarrow> None | Some c \<Rightarrow> Some (pr\<lparr>clk := c\<rparr>))"

text \<open>
  Modelled from the spec: the unit of the gauges of the metrics code (not among
  the sources) that hold a time, ``Unix seconds''.
\<close>

definition Unix :: "time \<Rightarrow> int" where
  "Unix t = t div Second"

text \<open>
  Modelled from the spec: the unit of the latency gauge of the metrics code (not
  among the sources), whole milliseconds, rounded towards zero as Go's integer
  division does.
\<close>

definition Milliseconds :: "duration \<Rightarrow> int" where
  "Milliseconds d = sgn d * (\<bar>d\<bar> div Millisecond)"

text \<open>
  Modelled from the spec: the unit of the interval gauge of the metrics code (not
  among the sources), seconds; the floating-point value is kept as a fraction.
\<close>

definition Seconds :: "duration \<Rightarrow> rat" where
  "Seconds d = of_int d / of_int Second"

text \<open>
  Modelled from the spec: one sample of a scrape of the metrics code (not among
  the sources). Of the labels only the name of the probe is kept.
\<close>

record sample =
  metric :: string
  probe_name :: string
  sample_value :: rat

text \<open>
  Modelled from the spec: the Metrics Recorder (not among the sources) for one
  probe and the namespace \<open>ns\<close>: the static gauge of the interval, and the gauges
  of the latest snapshot once there is one.
\<close>

definition collect :: "string \<Rightarrow> Probe \<Rightarrow> sample list" where
  "collect ns p =
     \<lparr>metric = ns @ ''_interval_secs'', probe_name = name p,
      sample_value = Seconds (probe_interval p)\<rparr> #
     (case lastResult p of
        None \<Rightarrow> []
      | Some r \<Rightarrow>
          [\<lparr>metric = ns @ ''_start_secs'', probe_name = name p,
            sample_value = of_int (Unix (start_time r))\<rparr>,
           \<lparr>metric = ns @ ''_end_secs'', probe_name = name p,
            sample_value = of_int (Unix (end_time r))\<rparr>,
           \<lparr>metric = ns @ ''_latency_millis'', probe_name = name p,
            sample_value = of_int (Milliseconds (latency r))\<rparr>,
           \<lparr>metric = ns @ ''_result'', probe_name = name p,
            sample_value = (if success r then 1 else 0)\<rparr>])"

text \<open>
  Modelled from the spec: a scrape of the Metrics Recorder (not among the
  sources), over every registered probe.
\<close>

definition scrape :: "Prober \<Rightarrow> sample list" where
  "scrape pr = concat (map (collect (metricsNamespace pr)) (probes pr))"

subsection \<open>Histories of a registry\<close>

text \<open>
  A history is what a test and the scheduler do to a registry, one step after the
  other: a registration, a \<^verbatim>\<open>Close\<close> through a handle, the goroutine of a probe
  being scheduled, the clock being advanced. A \<^verbatim>\<open>Run\<close> that fails leaves the registry
  as it is. \<open>prober_run\<close> is \<open>None\<close> when a step never returns.

  In a well-formed history every interval is positive and every handle was
  returned by an earlier registration (handles are numbered from 0 in the order of
  registration): \<open>wf_pops n ops\<close> says so for a registry that has handed out \<open>n\<close>
  handles already. \<open>registered ops\<close> counts the registrations of a history and
  \<open>run_names ops\<close> lists their names.
\<close>

datatype prober_op =
    DoRun string duration "(string \<times> string) list" target
  | DoClose nat
  | DoStep nat
  | DoAdvance duration

fun prober_step :: "prober_op \<Rightarrow> Prober \<Rightarrow> Prober option" where
  "prober_step (DoRun n d ls tg) pr =
     (case Run n d ls tg pr of Inl e \<Rightarrow> Some pr | Inr (h, pr') \<Rightarrow> Some pr')"
| "prober_step (DoClose h) pr = Some (Close h pr)"
| "prober_step (DoStep h) pr = Step h pr"
| "prober_step (DoAdvance d) pr = AdvanceTime d pr"

fun prober_run :: "prober_op list \<Rightarrow> Prober \<Rightarrow> Prober option" where
  "prober_run [] pr = Some pr"
| "prober_run (x # ops) pr =
     (case prober_step x pr of None \<Rightarrow> None | Some pr' \<Rightarrow> prober_run ops pr')"

fun wf_pops :: "nat \<Rightarrow> prober_op list \<Rightarrow> bool" where
  "wf_pops n [] = True"
| "wf_pops n (DoRun nm d ls tg # ops) = (0 < d \<and> wf_pops (Suc n) ops)"
| "wf_pops n (DoClose h # ops) = (h < n \<and> wf_pops n ops)"
| "wf_pops n (DoStep h # ops) = (h < n \<and> wf_pops n ops)"
| "wf_pops n (DoAdvance d # ops) = wf_pops n ops"

fun registered :: "prober_op list \<Rightarrow> nat" where
  "registered [] = 0"
| "registered (DoRun nm d ls tg # ops) = Suc (registered ops)"
| "registered (DoClose h # ops) = registered ops"
| "registered (DoStep h # ops) = registered ops"
| "registered (DoAdvance d # ops) = registered ops"

fun run_names :: "prober_op list \<Rightarrow> string list" where
  "run_names [] = []"
| "run_names (DoRun nm d ls tg # ops) = nm # run_names ops"
| "run_names (DoClose h # ops) = run_names ops"
| "run_names (DoStep h # ops) = run_names ops"
| "run_names (DoAdvance d # ops) = run_names ops"

subsection \<open>Invariants of a registry\<close>

text \<open>
  The tickers that waiting probes hold; two clocks whose tickers agree on their
  stopped flags and intervals; the tickers of a clock that are not stopped.
\<close>

definition waiting_handles :: "Probe list \<Rightarrow> nat list" where
  "waiting_handles ps = concat (map (\<lambda>p. case phase p of Waiting k \<Rightarrow> [k] | _ \<Rightarrow> []) ps)"

definition same_tickers :: "fakeTime \<Rightarrow> fakeTime \<Rightarrow> bool" where
  "same_tickers c c' \<longleftrightarrow>
     length (tickers c') = length (tickers c) \<and>
     (\<forall>k < length (tickers c).
        stopped (tickers c' ! k) = stopped (tickers c ! k) \<and>
        interval (tickers c' ! k) = interval (tickers c ! k))"

definition live_tickers :: "fakeTime \<Rightarrow> nat set" where
  "live_tickers c = {k. k < length (tickers c) \<and> \<not> stopped (tickers c ! k)}"

text \<open>
  A probe has a recorded snapshot, with the latency that its start and end give.
  A registered probe of a looping registry is sound if its interval is positive,
  its loop has not ended, and it has a snapshot exactly if its loop has left its
  entry.
\<close>

definition recorded :: "Probe \<Rightarrow> bool" where
  "recorded p \<longleftrightarrow> (\<exists>r. lastResult p = Some r \<and> latency r = end_time r - start_time r)"

definition probe_ok :: "Probe \<Rightarrow> bool" where
  "probe_ok p \<longleftrightarrow>
     0 < probe_interval p \<and> phase p \<noteq> Stopped \<and>
     (if phase p = PendingStart then lastResult p = None else recorded p)"

text \<open>
  The invariant of a looping registry: handles are unique, every probe is sound,
  the tickers that are not stopped are exactly the tickers of the waiting probes,
  one each, and every ticker has a positive interval.
\<close>

definition reg_inv :: "Prober \<Rightarrow> bool" where
  "reg_inv pr \<longleftrightarrow>
     \<not> onceMode pr \<and>
     distinct (map probe_id (probes pr)) \<and>
     (\<forall>p \<in> set (probes pr). probe_ok p) \<and>
     distinct (waiting_handles (probes pr)) \<and>
     set (waiting_handles (probes pr)) = live_tickers (clk pr) \<and>
     (\<forall>a \<in> set (tickers (clk pr)). 0 < interval a)"

text \<open>
  What a history says about the registry it leads to: the handles of the
  registered probes are, in order, the handles that were handed out and not closed,
  and the loop of a probe is at its entry exactly if its goroutine was never
  scheduled.
\<close>

definition at_entry :: "Probe \<Rightarrow> nat \<times> bool" where
  "at_entry p = (probe_id p, phase p = PendingStart)"

definition trace_inv :: "prober_op list \<Rightarrow> Prober \<Rightarrow> bool" where
  "trace_inv ops pr \<longleftrightarrow>
     next_id pr = registered ops \<and>
     map at_entry (probes pr) =
       map (\<lambda>h. (h, DoStep h \<notin> set ops)) (filter (\<lambda>h. DoClose h \<notin> set ops) [0..<registered ops]) \<and>
     set (map name (probes pr)) \<subseteq> set (run_names ops)"

section \<open>Properties of the command line clean-up\<close>

lemma CleanUpArgs_loop_map: "CleanUpArgs_loop out args = out @ map rewriteArg args"
  by (induction args arbitrary: out) simp_all

lemma CleanUpArgs_map: "CleanUpArgs args = map rewriteArg args"
  by (simp add: CleanUpArgs_def CleanUpArgs_loop_map)

lemma rewriteArg_exact:
  "arg = ''--authkey'' \<or> arg = ''-authkey'' \<Longrightarrow> rewriteArg arg = ''--auth-key''"
  by (simp add: rewriteArg_def)

lemma rewriteArg_long: "rewriteArg (''--authkey='' @ v) = ''--auth-key='' @ v"
  by (simp add: rewriteArg_def HasPrefix_def TrimLeft_def TrimPrefix_def)

lemma rewriteArg_short: "rewriteArg (''-authkey='' @ v) = ''--auth-key='' @ v"
  by (simp add: rewriteArg_def HasPrefix_def TrimLeft_def TrimPrefix_def)

lemma rewriteArg_other:
  "arg \<noteq> ''--authkey'' \<Longrightarrow> arg \<noteq> ''-authkey'' \<Longrightarrow> \<not> HasPrefix arg ''--authkey=''
   \<Longrightarrow> \<not> HasPrefix arg ''-authkey='' \<Longrightarrow> rewriteArg arg = arg"
  by (simp add: rewriteArg_def)

lemma HasPrefix_append: "HasPrefix s p \<longleftrightarrow> (\<exists>v. s = p @ v)"
proof
  assume "HasPrefix s p"
  then have "s = p @ drop (length p) s"
    by (metis HasPrefix_def append_take_drop_id)
  then show "\<exists>v. s = p @ v" ..
next
  assume "\<exists>v. s = p @ v"
  then show "HasPrefix s p" by (auto simp: HasPrefix_def)
qed

text \<open>
  Claim C9. \<open>CleanUpArgs\<close> returns a list of the same length and order as its
  argument. At each position, an element equal to \<^verbatim>\<open>--authkey\<close> or \<^verbatim>\<open>-authkey\<close>
  has become \<^verbatim>\<open>--auth-key\<close>; an element that begins with \<^verbatim>\<open>--authkey=\<close> or
  \<^verbatim>\<open>-authkey=\<close> has become \<^verbatim>\<open>--auth-key=\<close> followed by everything that stood
  after that equals sign; every other element is unchanged.
\<close>

theorem CleanUpArgs_rewrites:
  "length (CleanUpArgs args) = length args \<and>
   (\<forall>i < length args.
      (args ! i = ''--authkey'' \<or> args ! i = ''-authkey''
         \<longrightarrow> CleanUpArgs args ! i = ''--auth-key'') \<and>
      (\<forall>v. args ! i = ''--authkey='' @ v \<or> args ! i = ''-authkey='' @ v
         \<longrightarrow> CleanUpArgs args ! i = ''--auth-key='' @ v) \<and>
      (args ! i \<noteq> ''--authkey'' \<and> args ! i \<noteq> ''-authkey'' \<and>
       (\<forall>v. args ! i \<noteq> ''--authkey='' @ v) \<and> (\<forall>v. args ! i \<noteq> ''-authkey='' @ v)
         \<longrightarrow> CleanUpArgs args ! i = args ! i))"
proof (intro conjI allI impI)
  show "length (CleanUpArgs args) = length args"
    by (simp add: CleanUpArgs_map)
next
  fix i assume "i < length args" "args ! i = ''--authkey'' \<or> args ! i = ''-authkey''"
  then show "CleanUpArgs args ! i = ''--auth-key''"
    by (simp add: CleanUpArgs_map rewriteArg_exact)
next
  fix i v
  assume "i < length args" "args ! i = ''--authkey='' @ v \<or> args ! i = ''-authkey='' @ v"
  then show "CleanUpArgs args ! i = ''--auth-key='' @ v"
    using rewriteArg_long [of v] rewriteArg_short [of v]
    by (auto simp: CleanUpArgs_map)
next
  fix i
  assume i: "i < length args"
    and other: "args ! i \<noteq> ''--authkey'' \<and> args ! i \<noteq> ''-authkey'' \<and>
       (\<forall>v. args ! i \<noteq> ''--authkey='' @ v) \<and> (\<forall>v. args ! i \<noteq> ''-authkey='' @ v)"
  from other have "\<not> HasPrefix (args ! i) ''--authkey=''" "\<not> HasPrefix (args ! i) ''-authkey=''"
    by (simp_all only: HasPrefix_append not_ex) blast+
  with other have "rewriteArg (args ! i) = args ! i"
    by (simp add: rewriteArg_other)
  with i show "CleanUpArgs args ! i = args ! i"
    by (simp add: CleanUpArgs_map)
qed

theorem CleanUpArgs_rewrites_witness:
  "length (CleanUpArgs [''--authkey'', ''-authkey=k=1'', ''--authkey=--x'', ''up'']) = 4 \<and>
   CleanUpArgs [''--authkey'', ''-authkey=k=1'', ''--authkey=--x'', ''up''] ! 0 = ''--auth-key'' \<and>
   CleanUpArgs [''--authkey'', ''-authkey=k=1'', ''--authkey=--x'', ''up''] ! 1 = ''--auth-key=k=1'' \<and>
   CleanUpArgs [''--authkey'', ''-authkey=k=1'', ''--authkey=--x'', ''up''] ! 2 = ''--auth-key=--x'' \<and>
   CleanUpArgs [''--authkey'', ''-authkey=k=1'', ''--authkey=--x'', ''up''] ! 3 = ''up''"
proof -
  let ?args = "[''--authkey'', ''-authkey=k=1'', ''--authkey=--x'', ''up'']"
  note C = CleanUpArgs_rewrites [of ?args]
  from C have len: "length (CleanUpArgs ?args) = 4" by simp
  from C have a0: "CleanUpArgs ?args ! 0 = ''--auth-key''" by simp
  from C have "\<forall>v. ?args ! 1 = ''-authkey='' @ v \<longrightarrow> CleanUpArgs ?args ! 1 = ''--auth-key='' @ v"
    by simp
  then have "?args ! 1 = ''-authkey='' @ ''k=1'' \<longrightarrow> CleanUpArgs ?args ! 1 = ''--auth-key='' @ ''k=1''"
    by (rule spec)
  then have a1: "CleanUpArgs ?args ! 1 = ''--auth-key=k=1''" by simp
  from C have "\<forall>v. ?args ! 2 = ''--authkey='' @ v \<longrightarrow> CleanUpArgs ?args ! 2 = ''--auth-key='' @ v"
    by simp
  then have "?args ! 2 = ''--authkey='' @ ''--x'' \<longrightarrow> CleanUpArgs ?args ! 2 = ''--auth-key='' @ ''--x''"
    by (rule spec)
  then have a2: "CleanUpArgs ?args ! 2 = ''--auth-key=--x''" by simp
  from C have a3: "CleanUpArgs ?args ! 3 = ''up''" by simp
  from len a0 a1 a2 a3 show ?thesis by simp
qed

section \<open>Properties of the views\<close>

subsection \<open>Unmarshalling into a view\<close>

text \<open>
  Claim C10. Whatever \<^verbatim>\<open>json.Unmarshal\<close> does and whatever the input is, calling
  \<^verbatim>\<open>UnmarshalJSON\<close> on a view whose underlying slice or map is not \<^verbatim>\<open>nil\<close>
  returns the error \<^verbatim>\<open>already initialized\<close> and leaves the view as it was; this
  holds for \<^verbatim>\<open>unmarshalSliceFromJSON\<close> itself, for \<^verbatim>\<open>ByteSlice\<close>, for \<^verbatim>\<open>Map\<close> and for
  the two slice views. On a \<^verbatim>\<open>nil\<close> slice and an empty input the slice views
  return no error and the slice stays \<^verbatim>\<open>nil\<close>.
\<close>

theorem UnmarshalJSON_already_initialized:
  "(x \<noteq> None \<longrightarrow>
      unmarshalSliceFromJSON us b x = (Some (errors_New ''already initialized''), x)) \<and>
   (ByteSlice_zh bv \<noteq> None \<longrightarrow>
      ByteSlice_UnmarshalJSON ub bv b = (Some (errors_New ''already initialized''), bv)) \<and>
   (Map_zh m \<noteq> None \<longrightarrow>
      Map_UnmarshalJSON um m b = (Some (errors_New ''already initialized''), m)) \<and>
   (SliceView_zh sv \<noteq> None \<longrightarrow>
      SliceView_UnmarshalJSON us sv b = (Some (errors_New ''already initialized''), sv)) \<and>
   (Slice_zh s \<noteq> None \<longrightarrow>
      Slice_UnmarshalJSON us s b = (Some (errors_New ''already initialized''), s)) \<and>
   (SliceView_zh sv = None \<longrightarrow> SliceView_UnmarshalJSON us sv [] = (None, sv)) \<and>
   (Slice_zh s = None \<longrightarrow> Slice_UnmarshalJSON us s [] = (None, s))"
  by (simp add: unmarshalSliceFromJSON_def ByteSlice_UnmarshalJSON_def Map_UnmarshalJSON_def
        SliceView_UnmarshalJSON_def Slice_UnmarshalJSON_def)

theorem UnmarshalJSON_already_initialized_witness:
  "ByteSlice_UnmarshalJSON (\<lambda>b x. (None, Some b)) \<lparr>ByteSlice_zh = Some ''old''\<rparr> ''[1]''
     = (Some (errors_New ''already initialized''), \<lparr>ByteSlice_zh = Some ''old''\<rparr>) \<and>
   Map_UnmarshalJSON (\<lambda>b x. (None, Some [b \<mapsto> True])) \<lparr>Map_zh = Some Map.empty\<rparr> ''[1]''
     = (Some (errors_New ''already initialized''), \<lparr>Map_zh = Some Map.empty\<rparr>) \<and>
   SliceView_UnmarshalJSON (\<lambda>b x. (None, Some [b])) \<lparr>SliceView_zh = Some []\<rparr> ''[1]''
     = (Some (errors_New ''already initialized''), \<lparr>SliceView_zh = Some []\<rparr>) \<and>
   Slice_UnmarshalJSON (\<lambda>b x. (None, Some [b])) \<lparr>Slice_zh = Some [''a'']\<rparr> ''[1]''
     = (Some (errors_New ''already initialized''), \<lparr>Slice_zh = Some [''a'']\<rparr>) \<and>
   SliceView_UnmarshalJSON (\<lambda>b x. (None, Some [b])) \<lparr>SliceView_zh = None\<rparr> []
     = (None, \<lparr>SliceView_zh = None\<rparr>) \<and>
   Slice_UnmarshalJSON (\<lambda>b x. (None, Some [b])) \<lparr>Slice_zh = None\<rparr> []
     = (None, \<lparr>Slice_zh = None\<rparr>)"
proof -
  let ?ub = "\<lambda>(b::bytes) (x::char list option). (None::error option, Some b)"
  let ?um = "\<lambda>(b::bytes) (x::(bytes \<rightharpoonup> bool) option). (None::error option, Some [b \<mapsto> True])"
  let ?us = "\<lambda>(b::bytes) (x::bytes list option). (None::error option, Some [b])"
  note T1 = UnmarshalJSON_already_initialized
    [of "Some [''a'']" ?us "''[1]''" "\<lparr>ByteSlice_zh = Some ''old''\<rparr>" ?ub
        "\<lparr>Map_zh = Some Map.empty\<rparr>" ?um "\<lparr>SliceView_zh = Some []\<rparr>" "\<lparr>Slice_zh = Some [''a'']\<rparr>"]
  note T2 = UnmarshalJSON_already_initialized
    [of "None" ?us "[]" "\<lparr>ByteSlice_zh = None\<rparr>" ?ub
        "\<lparr>Map_zh = None\<rparr>" ?um "\<lparr>SliceView_zh = None\<rparr>" "\<lparr>Slice_zh = None\<rparr>"]
  from T1 T2 show ?thesis by simp
qed

section \<open>Properties of the fake clock\<close>

subsection \<open>The loop of \<open>fire\<close>\<close>

lemma fire_loop_done: "now \<le> n \<Longrightarrow> fire_loop now d n = Some n"
  by (simp add: fire_loop.simps)

lemma fire_loop_step: "n < now \<Longrightarrow> fire_loop now d n = fire_loop now d (n + d)"
  by (subst fire_loop.simps) simp

lemma fire_loop_positive:
  assumes "0 < d"
  shows "\<exists>k. fire_loop now d n = Some (n + int k * d) \<and> now \<le> n + int k * d \<and>
           (\<forall>j<k. n + int j * d < now)"
proof (induction "nat (now - n)" arbitrary: n rule: less_induct)
  case less
  show ?case
  proof (cases "n < now")
    case False
    then have "fire_loop now d n = Some (n + int 0 * d)" by (simp add: fire_loop_done)
    with False show ?thesis by (intro exI [of _ 0]) simp
  next
    case True
    with assms have "nat (now - (n + d)) < nat (now - n)" by simp
    from less [OF this] obtain k where
      k: "fire_loop now d (n + d) = Some (n + d + int k * d)" "now \<le> n + d + int k * d"
         "\<forall>j<k. n + d + int j * d < now" by blast
    have "fire_loop now d n = Some (n + int (Suc k) * d)"
      using True k(1) by (simp add: fire_loop_step algebra_simps)
    moreover have "now \<le> n + int (Suc k) * d"
      using k(2) by (simp add: algebra_simps)
    moreover have "\<forall>j<Suc k. n + int j * d < now"
    proof (intro allI impI)
      fix j assume "j < Suc k"
      show "n + int j * d < now"
      proof (cases j)
        case 0 with True show ?thesis by simp
      next
        case (Suc j')
        with \<open>j < Suc k\<close> k(3) have "n + d + int j' * d < now" by simp
        with Suc show ?thesis by (simp add: algebra_simps)
      qed
    qed
    ultimately show ?thesis by blast
  qed
qed

lemma fire_loop_Some_imp:
  assumes "fire_loop now d n = Some y"
  shows "d \<le> 0 \<longrightarrow> now \<le> n"
proof (rule fire_loop.raw_induct [where P = "\<lambda>now d n y. d \<le> 0 \<longrightarrow> now \<le> n", OF _ assms])
  fix f now d n and y :: time
  assume IH: "\<And>now d n y. f now d n = Some y \<Longrightarrow> d \<le> 0 \<longrightarrow> now \<le> n"
    and eq: "(if n < now then f now d (n + d) else Some n) = Some y"
  show "d \<le> 0 \<longrightarrow> now \<le> n"
  proof (cases "n < now")
    case True
    with eq have "f now d (n + d) = Some y" by simp
    from IH [OF this] show ?thesis by auto
  next
    case False
    then show ?thesis by simp
  qed
qed

lemma fire_loop_diverges: "d \<le> 0 \<Longrightarrow> n < now \<Longrightarrow> fire_loop now d n = None"
  using fire_loop_Some_imp [of now d n] by (cases "fire_loop now d n") auto

lemma fire_positive:
  assumes "0 < interval t"
  shows "\<exists>k. fire now t = Some (t\<lparr>ch := send_or_drop now (ch t), next := next t + int k * interval t\<rparr>)
           \<and> now \<le> next t + int k * interval t \<and> (\<forall>j<k. next t + int j * interval t < now)"
proof -
  from fire_loop_positive [OF assms, of now "next t"] obtain k where
    "fire_loop now (interval t) (next t) = Some (next t + int k * interval t)"
    "now \<le> next t + int k * interval t" "\<forall>j<k. next t + int j * interval t < now"
    by blast
  then show ?thesis by (intro exI [of _ k]) (simp add: fire_def)
qed

lemma fire_keeps:
  "fire now a = Some b \<Longrightarrow>
     stopped b = stopped a \<and> interval b = interval a \<and> ch b = send_or_drop now (ch a)"
  by (auto simp: fire_def split: option.splits)

lemma fire_due_all2:
  "fire_due cur ts = Some ts' \<Longrightarrow>
     list_all2 (\<lambda>a b. (if next a < cur then fire cur a else Some a) = Some b) ts ts'"
proof (induction ts arbitrary: ts')
  case Nil
  then show ?case by simp
next
  case (Cons a ts)
  from Cons.prems obtain b rest where
    b: "(if next a < cur then fire cur a else Some a) = Some b"
    and rest: "fire_due cur ts = Some rest" and ts': "ts' = b # rest"
    by (auto split: option.splits)
  from Cons.IH [OF rest] b ts' show ?case by simp
qed

lemma fire_due_total:
  "\<forall>a\<in>set ts. 0 < interval a \<Longrightarrow> \<exists>ts'. fire_due cur ts = Some ts'"
proof (induction ts)
  case Nil
  then show ?case by simp
next
  case (Cons a ts)
  then obtain rest where rest: "fire_due cur ts = Some rest" by auto
  from Cons.prems have "0 < interval a" by simp
  from fire_positive [OF this, of cur] obtain b where "fire cur a = Some b" by blast
  with rest show ?case by simp
qed

lemma Advance_nth:
  assumes "Advance d t = Some t'"
  shows "curTime t' = curTime t + d \<and> length (tickers t') = length (tickers t) \<and>
         (\<forall>h < length (tickers t).
            (if next (tickers t ! h) < curTime t + d then fire (curTime t + d) (tickers t ! h)
             else Some (tickers t ! h)) = Some (tickers t' ! h))"
proof -
  from assms obtain ts where ts: "fire_due (curTime t + d) (tickers t) = Some ts"
    and t': "t' = t\<lparr>curTime := curTime t + d, tickers := ts\<rparr>"
    by (auto simp: Advance_def Let_def split: option.splits)
  from fire_due_all2 [OF ts] t' show ?thesis
    by (simp add: list_all2_conv_all_nth)
qed

lemma Advance_due:
  assumes "Advance d t = Some t'" and "h < length (tickers t)"
    and "next (tickers t ! h) < curTime t + d"
  shows "fire (curTime t + d) (tickers t ! h) = Some (tickers t' ! h)"
proof -
  from Advance_nth [OF assms(1)] assms(2)
  have "(if next (tickers t ! h) < curTime t + d then fire (curTime t + d) (tickers t ! h)
         else Some (tickers t ! h)) = Some (tickers t' ! h)" by blast
  with assms(3) show ?thesis by simp
qed


lemma Advance_keeps:
  assumes "Advance d t = Some t'" and "h < length (tickers t)"
  shows "stopped (tickers t' ! h) = stopped (tickers t ! h)"
    and "interval (tickers t' ! h) = interval (tickers t ! h)"
proof -
  from Advance_nth [OF assms(1)] assms(2)
  have "(if next (tickers t ! h) < curTime t + d then fire (curTime t + d) (tickers t ! h)
         else Some (tickers t ! h)) = Some (tickers t' ! h)" by simp
  then have "fire (curTime t + d) (tickers t ! h) = Some (tickers t' ! h) \<or> tickers t' ! h = tickers t ! h"
    by (simp split: if_splits)
  then show "stopped (tickers t' ! h) = stopped (tickers t ! h)"
    and "interval (tickers t' ! h) = interval (tickers t ! h)"
    using fire_keeps [of "curTime t + d" "tickers t ! h" "tickers t' ! h"] by auto
qed

lemma Advance_total:
  "\<forall>a\<in>set (tickers t). 0 < interval a \<Longrightarrow> \<exists>t'. Advance d t = Some t'"
  using fire_due_total [of "tickers t" "curTime t + d"]
  by (auto simp: Advance_def Let_def)

lemma fold_count:
  "fold (\<lambda>tick count. if P tick then count + 1 else count) ts (n::nat) = n + length (filter P ts)"
  by (induction ts arbitrary: n) simp_all

lemma activeTickers_filter:
  "activeTickers t = length (filter (\<lambda>tick. \<not> stopped tick) (tickers t))"
  by (simp add: activeTickers_def fold_count)

lemma length_filter_nth:
  "length (filter P xs) = length (filter (\<lambda>h. P (xs ! h)) [0..<length xs])"
proof -
  have "filter P (map (\<lambda>h. xs ! h) [0..<length xs])
          = map (\<lambda>h. xs ! h) (filter (P \<circ> (\<lambda>h. xs ! h)) [0..<length xs])"
    by (rule filter_map)
  then have "length (filter P xs) = length (filter (P \<circ> (\<lambda>h. xs ! h)) [0..<length xs])"
    by (simp add: map_nth)
  then show ?thesis by (simp add: comp_def)
qed

lemma clock_step_stopped:
  assumes "clock_step x t = Some t'" and "wf_ops (length (tickers t)) [x]"
  shows "length (tickers t') = length (tickers t) + created [x] \<and>
         (\<forall>h < length (tickers t').
            stopped (tickers t' ! h) \<longleftrightarrow>
              (h < length (tickers t) \<and> stopped (tickers t ! h)) \<or> x = OpStop h)"
proof (cases x)
  case (OpNewTicker d)
  with assms have t': "tickers t' = tickers t @ [\<lparr>ch = None, interval = d, next = curTime t + d, stopped = False\<rparr>]"
    by (auto simp: NewTicker_def Let_def)
  have "stopped (tickers t' ! h) \<longleftrightarrow> (h < length (tickers t) \<and> stopped (tickers t ! h))"
    if "h < length (tickers t')" for h
  proof (cases "h < length (tickers t)")
    case True
    then show ?thesis by (simp add: t' nth_append)
  next
    case False
    with that have "h = length (tickers t)" by (simp add: t')
    then show ?thesis by (simp add: t')
  qed
  with OpNewTicker t' show ?thesis by simp
next
  case (OpStop g)
  with assms have t': "tickers t' = (tickers t)[g := Stop (tickers t ! g)]" and g: "g < length (tickers t)"
    by (auto simp: Stop_at_def)
  have "stopped (tickers t' ! h) \<longleftrightarrow> stopped (tickers t ! h) \<or> g = h"
    if "h < length (tickers t)" for h
    using that by (cases "g = h") (simp_all add: t' Stop_def)
  with OpStop t' show ?thesis by auto
next
  case (OpAdvance d)
  with assms have A: "Advance d t = Some t'" by simp
  from Advance_nth [OF A] Advance_keeps(1) [OF A] OpAdvance show ?thesis by simp
next
  case (OpRecv g)
  with assms have t': "tickers t' = (tickers t)[g := (tickers t ! g)\<lparr>ch := None\<rparr>]" and g: "g < length (tickers t)"
    by (auto simp: recv_at_def)
  have "stopped (tickers t' ! h) \<longleftrightarrow> stopped (tickers t ! h)"
    if "h < length (tickers t)" for h
    using that by (cases "g = h") (simp_all add: t')
  with OpRecv t' show ?thesis by simp
qed

lemma wf_ops_Cons: "wf_ops n (x # ops) \<longleftrightarrow> wf_ops n [x] \<and> wf_ops (n + created [x]) ops"
  by (cases x) simp_all

lemma created_Cons: "created (x # ops) = created [x] + created ops"
  by (cases x) simp_all

lemma clock_run_stopped:
  "wf_ops (length (tickers t)) ops \<Longrightarrow> clock_run ops t = Some t' \<Longrightarrow>
     length (tickers t') = length (tickers t) + created ops \<and>
     (\<forall>h < length (tickers t').
        stopped (tickers t' ! h) \<longleftrightarrow>
          (h < length (tickers t) \<and> stopped (tickers t ! h)) \<or> OpStop h \<in> set ops)"
proof (induction ops arbitrary: t)
  case Nil
  then show ?case by simp
next
  case (Cons x ops)
  from Cons.prems(2) obtain t1 where t1: "clock_step x t = Some t1"
    and run: "clock_run ops t1 = Some t'"
    by (auto split: option.splits)
  from Cons.prems(1) have wf1: "wf_ops (length (tickers t)) [x]"
    and wf2: "wf_ops (length (tickers t) + created [x]) ops"
    by (simp_all add: wf_ops_Cons [of _ x ops])
  note S = clock_step_stopped [OF t1 wf1]
  from S wf2 have wf2': "wf_ops (length (tickers t1)) ops" by simp
  note IH = Cons.IH [OF wf2' run]
  have len: "length (tickers t') = length (tickers t) + created (x # ops)"
    using IH S by (simp add: created_Cons [of x ops])
  have "\<forall>h < length (tickers t').
        stopped (tickers t' ! h) \<longleftrightarrow>
          (h < length (tickers t) \<and> stopped (tickers t ! h)) \<or> OpStop h \<in> set (x # ops)"
  proof (intro allI impI)
    fix h assume h: "h < length (tickers t')"
    from IH h have "stopped (tickers t' ! h) \<longleftrightarrow>
          (h < length (tickers t1) \<and> stopped (tickers t1 ! h)) \<or> OpStop h \<in> set ops"
      by simp
    moreover have "h < length (tickers t1) \<and> stopped (tickers t1 ! h) \<longleftrightarrow>
        (h < length (tickers t) \<and> stopped (tickers t ! h)) \<or> x = OpStop h"
    proof (cases "h < length (tickers t1)")
      case True
      with S show ?thesis by simp
    next
      case False
      from False S have nlt: "\<not> h < length (tickers t)" by simp
      from wf1 have "x \<noteq> OpStop h" using nlt by (cases x) simp_all
      with False nlt show ?thesis by simp
    qed
    ultimately show "stopped (tickers t' ! h) \<longleftrightarrow>
          (h < length (tickers t) \<and> stopped (tickers t ! h)) \<or> OpStop h \<in> set (x # ops)"
      by auto
  qed
  with len show ?case by simp
qed

lemma activeTickers_trace:
  assumes "wf_ops 0 ops" and "clock_run ops newFakeTime = Some t"
  shows "activeTickers t = length (filter (\<lambda>h. OpStop h \<notin> set ops) [0..<created ops])"
proof -
  from assms have wf: "wf_ops (length (tickers newFakeTime)) ops"
    by (simp add: newFakeTime_def)
  from clock_run_stopped [OF wf assms(2)]
  have len: "length (tickers t) = created ops"
    and st: "\<forall>h < length (tickers t). stopped (tickers t ! h) \<longleftrightarrow> OpStop h \<in> set ops"
    by (simp_all add: newFakeTime_def)
  have "activeTickers t
          = length (filter (\<lambda>h. \<not> stopped (tickers t ! h)) [0..<length (tickers t)])"
    by (simp add: activeTickers_filter length_filter_nth [of _ "tickers t"])
  also have "filter (\<lambda>h. \<not> stopped (tickers t ! h)) [0..<length (tickers t)]
          = filter (\<lambda>h. OpStop h \<notin> set ops) [0..<length (tickers t)]"
    using st by (intro filter_cong) auto
  finally show ?thesis by (simp add: len)
qed

subsection \<open>Firing a ticker\<close>

text \<open>
  Claim C3 says of every fake ticker that \<^verbatim>\<open>fire\<close> leaves the next scheduled
  time no longer before \<open>now\<close>. A ticker whose interval is zero and whose next
  scheduled time lies before \<open>now\<close> is a ticker that \<^verbatim>\<open>NewTicker(0)\<close> makes, and
  on it the loop of \<^verbatim>\<open>fire\<close> adds zero for ever: the call never returns.
\<close>

theorem fire_zero_interval_never_returns:
  "fire 1 \<lparr>ch = None, interval = 0, next = 0, stopped = False\<rparr> = None"
  by (simp add: fire_def fire_loop_diverges)

text \<open>
  Claim C3, amended. For every fake ticker with a positive interval, \<^verbatim>\<open>fire(now)\<close>
  returns. If the channel already holds an unconsumed tick, that tick stays and
  the new one is dropped; an empty channel receives \<open>now\<close>. The next scheduled
  time moves along the arithmetic sequence of the interval, \<open>k\<close> steps, to the
  first member that is not before \<open>now\<close> (every earlier member is before
  \<open>now\<close>): missed intervals are skipped, not caught up. The interval and the
  stopped flag are as before.
\<close>

theorem fire_skips_missed_ticks:
  assumes "0 < interval t"
  shows "\<exists>k t'. fire now t = Some t' \<and>
           ch t' = (case ch t of None \<Rightarrow> Some now | Some pending \<Rightarrow> Some pending) \<and>
           next t' = next t + int k * interval t \<and>
           now \<le> next t' \<and> (\<forall>j<k. next t + int j * interval t < now) \<and>
           interval t' = interval t \<and> stopped t' = stopped t"
proof -
  from fire_positive [OF assms, of now] obtain k where
    k: "fire now t = Some (t\<lparr>ch := send_or_drop now (ch t), next := next t + int k * interval t\<rparr>)"
       "now \<le> next t + int k * interval t" "\<forall>j<k. next t + int j * interval t < now"
    by blast
  show ?thesis
    by (rule exI [of _ k], rule exI [of _ "t\<lparr>ch := send_or_drop now (ch t), next := next t + int k * interval t\<rparr>"])
       (use k in \<open>simp add: send_or_drop_def\<close>)
qed

theorem fire_skips_missed_ticks_witness:
  "\<exists>t'. fire 30 \<lparr>ch = Some 3, interval = 8, next = 8, stopped = False\<rparr> = Some t' \<and>
        ch t' = Some 3 \<and> 30 \<le> next t' \<and> interval t' = 8 \<and> \<not> stopped t'"
proof -
  have pos: "0 < interval \<lparr>ch = Some 3, interval = 8, next = 8, stopped = False\<rparr>" by simp
  from fire_skips_missed_ticks [OF pos, of 30] show ?thesis by auto
qed

subsection \<open>Stopping a ticker\<close>

text \<open>
  Claim C2 says that no tick is emitted on the channel of a ticker after its
  \<^verbatim>\<open>Stop\<close>. On the fake clock a ticker of one second is created at the epoch and
  stopped at once; advancing the clock by two seconds puts the tick of that time
  on its channel.
\<close>

theorem stopped_ticker_still_fires:
  "Advance (2 * Second) (Stop_at 0 (snd (NewTicker Second newFakeTime)))
     = Some \<lparr>curTime = 2 * Second,
             tickers = [\<lparr>ch = Some (2 * Second), interval = Second, next = 2 * Second, stopped = True\<rparr>]\<rparr>"
  by (simp add: Advance_def NewTicker_def Stop_at_def Stop_def newFakeTime_def epoch_def
        Second_def fire_def send_or_drop_def fire_loop.simps)

text \<open>
  Claim C2, amended. For every ticker of the fake clock, once \<^verbatim>\<open>Stop\<close> has been
  called the ticker stays marked as stopped whatever calls follow (\<^verbatim>\<open>NewTicker\<close>,
  \<^verbatim>\<open>Stop\<close>, \<^verbatim>\<open>Advance\<close>, receives). \<^verbatim>\<open>Stop\<close> does not silence the channel: an
  \<^verbatim>\<open>Advance\<close> that moves the clock strictly past the next scheduled time of the
  stopped ticker fires it like any other, so the tick is put on its channel
  unless one is pending there.
\<close>

theorem Stop_marks_but_does_not_silence:
  assumes "h < length (tickers t)"
    and "wf_ops (length (tickers t)) ops"
    and "clock_run ops (Stop_at h t) = Some t'"
  shows "stopped (tickers t' ! h) \<and>
         (\<forall>d t''. Advance d t' = Some t'' \<and> next (tickers t' ! h) < curTime t' + d \<longrightarrow>
            stopped (tickers t'' ! h) \<and>
            ch (tickers t'' ! h) =
              (case ch (tickers t' ! h) of None \<Rightarrow> Some (curTime t' + d) | Some pending \<Rightarrow> Some pending))"
proof -
  have len: "length (tickers (Stop_at h t)) = length (tickers t)"
    by (simp add: Stop_at_def)
  from assms(2) have wf: "wf_ops (length (tickers (Stop_at h t))) ops" by (simp add: len)
  note R = clock_run_stopped [OF wf assms(3)]
  from assms(1) have sh: "stopped (tickers (Stop_at h t) ! h)"
    by (simp add: Stop_at_def Stop_def)
  from R assms(1) have h': "h < length (tickers t')" by (simp add: len)
  with R sh assms(1) have st: "stopped (tickers t' ! h)" by (simp add: len)
  have "stopped (tickers t'' ! h) \<and>
        ch (tickers t'' ! h) =
          (case ch (tickers t' ! h) of None \<Rightarrow> Some (curTime t' + d) | Some pending \<Rightarrow> Some pending)"
    if A: "Advance d t' = Some t''" and due: "next (tickers t' ! h) < curTime t' + d" for d t''
  proof -
    note f = Advance_due [OF A h' due]
    from fire_keeps [OF f] st show ?thesis by (simp add: send_or_drop_def)
  qed
  with st show ?thesis by blast
qed

theorem Stop_marks_but_does_not_silence_witness:
  "stopped (tickers (the (clock_run [OpAdvance (2 * Second), OpNewTicker Second]
       (Stop_at 0 (snd (NewTicker Second newFakeTime)))) ) ! 0)"
proof -
  let ?t = "snd (NewTicker Second newFakeTime)"
  let ?ops = "[OpAdvance (2 * Second), OpNewTicker Second]"
  let ?t' = "\<lparr>curTime = 2 * Second,
      tickers = [\<lparr>ch = Some (2 * Second), interval = Second, next = 2 * Second, stopped = True\<rparr>,
                 \<lparr>ch = None, interval = Second, next = 3 * Second, stopped = False\<rparr>]\<rparr>"
  have h: "0 < length (tickers ?t)" by (simp add: NewTicker_def)
  have wf: "wf_ops (length (tickers ?t)) ?ops" by (simp add: NewTicker_def)
  have run: "clock_run ?ops (Stop_at 0 ?t) = Some ?t'"
    by (simp add: Advance_def NewTicker_def Stop_at_def Stop_def newFakeTime_def epoch_def
        Second_def fire_def send_or_drop_def fire_loop.simps)
  from Stop_marks_but_does_not_silence [OF h wf run] have "stopped (tickers ?t' ! 0)" by blast
  with run show ?thesis by simp
qed

subsection \<open>Advancing the clock\<close>




section \<open>Properties of the registry and the run loop\<close>

subsection \<open>Clocks that agree on their tickers\<close>

lemma same_tickers_refl: "same_tickers c c"
  by (simp add: same_tickers_def)

lemma same_tickers_trans: "same_tickers a b \<Longrightarrow> same_tickers b c \<Longrightarrow> same_tickers a c"
  by (simp add: same_tickers_def)

lemma same_tickers_Advance: "Advance d c = Some c' \<Longrightarrow> same_tickers c c'"
  using Advance_nth [of d c c'] Advance_keeps [of d c c']
  by (simp add: same_tickers_def)

lemma same_tickers_recv: "same_tickers c (snd (recv_at k c))"
proof -
  have "stopped (tickers (snd (recv_at k c)) ! j) = stopped (tickers c ! j) \<and>
        interval (tickers (snd (recv_at k c)) ! j) = interval (tickers c ! j)"
    if "j < length (tickers c)" for j
    using that by (cases "k = j") (simp_all add: recv_at_def)
  then show ?thesis by (simp add: same_tickers_def recv_at_def)
qed

lemma same_tickers_live: "same_tickers c c' \<Longrightarrow> live_tickers c' = live_tickers c"
  by (auto simp: same_tickers_def live_tickers_def)

lemma same_tickers_positive:
  assumes "same_tickers c c'" and "\<forall>a \<in> set (tickers c). 0 < interval a"
  shows "\<forall>a \<in> set (tickers c'). 0 < interval a"
proof
  fix a assume "a \<in> set (tickers c')"
  then obtain k where k: "k < length (tickers c')" "a = tickers c' ! k"
    by (auto simp: in_set_conv_nth)
  with assms(1) have "interval a = interval (tickers c ! k)" "k < length (tickers c)"
    by (simp_all add: same_tickers_def)
  with assms(2) show "0 < interval a" by simp
qed

lemma exec_target_same: "exec_target tg c = Some (r, c') \<Longrightarrow> same_tickers c c'"
proof (induction tg arbitrary: c)
  case (Return f)
  then show ?case by (simp add: same_tickers_refl)
next
  case (AdvanceClock d tg)
  from AdvanceClock.prems obtain c1 where c1: "Advance d c = Some c1"
    and rest: "exec_target tg c1 = Some (r, c')"
    by (auto split: option.splits)
  from same_tickers_Advance [OF c1] AdvanceClock.IH [OF rest] show ?case
    by (rule same_tickers_trans)
qed

lemma exec_target_total:
  "\<forall>a \<in> set (tickers c). 0 < interval a \<Longrightarrow> \<exists>r c'. exec_target tg c = Some (r, c')"
proof (induction tg arbitrary: c)
  case (Return f)
  then show ?case by simp
next
  case (AdvanceClock d tg)
  from Advance_total [OF AdvanceClock.prems, of d] obtain c1 where c1: "Advance d c = Some c1"
    by blast
  from same_tickers_positive [OF same_tickers_Advance [OF c1] AdvanceClock.prems]
  have "\<exists>r c'. exec_target tg c1 = Some (r, c')" by (rule AdvanceClock.IH)
  with c1 show ?case by simp
qed

lemma live_tickers_card: "activeTickers c = card (live_tickers c)"
  by (simp add: activeTickers_filter live_tickers_def length_filter_conv_card)

subsection \<open>Probes and their handles\<close>

lemma lookup_id_None: "lookup_id h ps = None \<longleftrightarrow> (\<forall>q \<in> set ps. probe_id q \<noteq> h)"
  by (auto simp: lookup_id_def find_None_iff)

lemma split_by_id:
  assumes "distinct (map probe_id ps)" and "lookup_id h ps = Some p"
  shows "\<exists>xs ys. ps = xs @ p # ys \<and> probe_id p = h \<and>
           (\<forall>q \<in> set xs. probe_id q \<noteq> h) \<and> (\<forall>q \<in> set ys. probe_id q \<noteq> h)"
proof -
  from assms(2) obtain i where i: "i < length ps" "probe_id (ps ! i) = h" "p = ps ! i"
    and before: "\<forall>j<i. probe_id (ps ! j) \<noteq> h"
    by (auto simp: lookup_id_def find_Some_iff)
  let ?xs = "take i ps" and ?ys = "drop (Suc i) ps"
  from i have ps: "ps = ?xs @ p # ?ys" by (simp add: id_take_nth_drop)
  with assms(1) have "distinct (map probe_id ?xs @ probe_id p # map probe_id ?ys)"
    by (metis list.simps(9) map_append)
  then have "probe_id p \<notin> probe_id ` set ?xs" "probe_id p \<notin> probe_id ` set ?ys"
    by simp_all
  with i have "(\<forall>q \<in> set ?xs. probe_id q \<noteq> h) \<and> (\<forall>q \<in> set ?ys. probe_id q \<noteq> h)"
    by blast
  with ps i show ?thesis by blast
qed

lemma filter_id_split:
  "(\<forall>q \<in> set xs. probe_id q \<noteq> h) \<Longrightarrow> (\<forall>q \<in> set ys. probe_id q \<noteq> h) \<Longrightarrow> probe_id p = h \<Longrightarrow>
   filter (\<lambda>q. probe_id q \<noteq> h) (xs @ p # ys) = xs @ ys"
  by (simp add: filter_id_conv)

lemma map_id_split:
  "(\<forall>q \<in> set xs. probe_id q \<noteq> h) \<Longrightarrow> (\<forall>q \<in> set ys. probe_id q \<noteq> h) \<Longrightarrow> probe_id p = h \<Longrightarrow>
   map (\<lambda>q. if probe_id q = h then p' else q) (xs @ p # ys) = xs @ p' # ys"
  by (simp add: map_idI)

lemma waiting_handles_append: "waiting_handles (xs @ ys) = waiting_handles xs @ waiting_handles ys"
  by (simp add: waiting_handles_def)

lemma waiting_handles_Cons:
  "waiting_handles (p # ys) = (case phase p of Waiting k \<Rightarrow> [k] | _ \<Rightarrow> []) @ waiting_handles ys"
  by (simp add: waiting_handles_def)

lemma waiting_handles_Nil: "waiting_handles [] = []"
  by (simp add: waiting_handles_def)

lemma length_waiting_handles:
  "length (waiting_handles ps) = length (filter (\<lambda>p. \<exists>k. phase p = Waiting k) ps)"
  by (induction ps) (auto simp: waiting_handles_Nil waiting_handles_Cons split: phase.splits)

subsection \<open>Stopping and creating tickers\<close>

lemma live_Stop_at:
  "k < length (tickers c) \<Longrightarrow> live_tickers (Stop_at k c) = live_tickers c - {k}"
  by (auto simp: live_tickers_def Stop_at_def Stop_def nth_list_update)

lemma positive_Stop_at:
  assumes "\<forall>a \<in> set (tickers c). 0 < interval a"
  shows "\<forall>a \<in> set (tickers (Stop_at k c)). 0 < interval a"
proof (cases "k < length (tickers c)")
  case True
  have "set ((tickers c)[k := Stop (tickers c ! k)]) \<subseteq> insert (Stop (tickers c ! k)) (set (tickers c))"
    by (rule set_update_subset_insert)
  moreover from True assms have "0 < interval (Stop (tickers c ! k))"
    by (simp add: Stop_def)
  ultimately show ?thesis using assms by (auto simp: Stop_at_def)
next
  case False
  then have "(tickers c)[k := Stop (tickers c ! k)] = tickers c"
    by (simp add: list_update_beyond)
  with assms show ?thesis by (simp add: Stop_at_def)
qed

lemma live_NewTicker:
  "live_tickers (snd (NewTicker d c)) = insert (length (tickers c)) (live_tickers c)"
  by (auto simp: live_tickers_def NewTicker_def Let_def nth_append less_Suc_eq)

lemma fst_NewTicker: "fst (NewTicker d c) = length (tickers c)"
  by (simp add: NewTicker_def Let_def)

lemma positive_NewTicker:
  "\<forall>a \<in> set (tickers c). 0 < interval a \<Longrightarrow> 0 < d \<Longrightarrow>
   \<forall>a \<in> set (tickers (snd (NewTicker d c))). 0 < interval a"
  by (auto simp: NewTicker_def Let_def)

lemma live_bound: "k \<in> live_tickers c \<Longrightarrow> k < length (tickers c)"
  by (simp add: live_tickers_def)

subsection \<open>One iteration\<close>

lemma run_iteration_Some:
  assumes "run_iteration p c = Some (p', c')"
  shows "same_tickers c c'"
    and "\<exists>f. exec_target (target p) c = Some (f, c') \<and>
             p' = p\<lparr>lastResult := Some \<lparr>start_time = Now c, end_time = Now c',
                                         success = (f = None), latency = Now c' - Now c\<rparr>\<rparr>"
proof -
  from assms obtain f where f: "exec_target (target p) c = Some (f, c')"
    and p': "p' = p\<lparr>lastResult := Some \<lparr>start_time = Now c, end_time = Now c',
                                         success = (f = None), latency = Now c' - Now c\<rparr>\<rparr>"
    by (auto simp: run_iteration_def Let_def split: option.splits)
  from exec_target_same [OF f] show "same_tickers c c'" .
  from f p' show "\<exists>f. exec_target (target p) c = Some (f, c') \<and>
             p' = p\<lparr>lastResult := Some \<lparr>start_time = Now c, end_time = Now c',
                                         success = (f = None), latency = Now c' - Now c\<rparr>\<rparr>"
    by blast
qed

lemma run_iteration_total:
  assumes "\<forall>a \<in> set (tickers c). 0 < interval a"
  shows "\<exists>p' c'. run_iteration p c = Some (p', c')"
proof -
  from exec_target_total [OF assms, of "target p"] obtain f c' where
    "exec_target (target p) c = Some (f, c')" by blast
  then show ?thesis by (simp add: run_iteration_def Let_def)
qed

lemma run_iteration_recorded:
  assumes "run_iteration p c = Some (p', c')"
  shows "recorded p'"
  using run_iteration_Some(2) [OF assms] by (auto simp: recorded_def)

lemma run_iteration_fields:
  assumes "run_iteration p c = Some (p', c')"
  shows "probe_id p' = probe_id p \<and> name p' = name p \<and> probe_interval p' = probe_interval p \<and>
         phase p' = phase p"
  using run_iteration_Some(2) [OF assms] by auto

subsection \<open>The run loop of a looping probe\<close>

lemma loop_step_pending:
  assumes pos: "\<forall>a \<in> set (tickers c). 0 < interval a" and d: "0 < probe_interval p"
    and ph: "phase p = PendingStart"
  shows "\<exists>p' c'. loop_step False p c = Some (p', c') \<and>
           probe_id p' = probe_id p \<and> name p' = name p \<and> probe_interval p' = probe_interval p \<and>
           phase p' = Waiting (length (tickers c)) \<and> recorded p' \<and>
           live_tickers c' = insert (length (tickers c)) (live_tickers c) \<and>
           (\<forall>a \<in> set (tickers c'). 0 < interval a)"
proof -
  from run_iteration_total [OF pos, of p] obtain p1 c1 where it: "run_iteration p c = Some (p1, c1)"
    by blast
  note same = run_iteration_Some(1) [OF it]
  note fields = run_iteration_fields [OF it]
  let ?c2 = "snd (NewTicker (probe_interval p1) c1)"
  let ?p' = "p1\<lparr>phase := Waiting (length (tickers c1))\<rparr>"
  have step: "loop_step False p c = Some (?p', ?c2)"
    using it ph by (simp add: loop_step_def split_beta fst_NewTicker)
  from same have len: "length (tickers c1) = length (tickers c)" by (simp add: same_tickers_def)
  have live: "live_tickers ?c2 = insert (length (tickers c)) (live_tickers c)"
    by (simp add: live_NewTicker len same_tickers_live [OF same])
  from same_tickers_positive [OF same pos] fields d
  have pos2: "\<forall>a \<in> set (tickers ?c2). 0 < interval a"
    by (simp add: positive_NewTicker)
  from run_iteration_recorded [OF it] have rec: "recorded ?p'"
    by (simp add: recorded_def)
  from step fields len live pos2 rec show ?thesis by simp
qed

lemma loop_step_waiting:
  assumes pos: "\<forall>a \<in> set (tickers c). 0 < interval a" and ph: "phase p = Waiting k"
    and rec: "recorded p"
  shows "\<exists>p' c'. loop_step once p c = Some (p', c') \<and>
           probe_id p' = probe_id p \<and> name p' = name p \<and> probe_interval p' = probe_interval p \<and>
           phase p' = Waiting k \<and> recorded p' \<and> live_tickers c' = live_tickers c \<and>
           (\<forall>a \<in> set (tickers c'). 0 < interval a)"
proof -
  let ?c1 = "snd (recv_at k c)"
  note same1 = same_tickers_recv [of c k]
  note pos1 = same_tickers_positive [OF same1 pos]
  show ?thesis
  proof (cases "fst (recv_at k c)")
    case None
    then have "loop_step once p c = Some (p, ?c1)"
      using ph by (simp add: loop_step_def split_beta)
    with ph pos1 rec same_tickers_live [OF same1] show ?thesis by simp
  next
    case (Some tick)
    from run_iteration_total [OF pos1, of p] obtain p1 c2 where
      it: "run_iteration p ?c1 = Some (p1, c2)" by blast
    from Some it have "loop_step once p c = Some (p1, c2)"
      using ph by (simp add: loop_step_def split_beta)
    moreover note same2 = same_tickers_trans [OF same1 run_iteration_Some(1) [OF it]]
    moreover note run_iteration_fields [OF it] run_iteration_recorded [OF it]
    ultimately show ?thesis
      using ph same_tickers_live [OF same2] same_tickers_positive [OF same2 pos] by simp
  qed
qed

subsection \<open>The invariant is kept\<close>

lemma Close_probes: "probes (Close h pr) = filter (\<lambda>q. probe_id q \<noteq> h) (probes pr)"
proof (cases "lookup_id h (probes pr)")
  case None
  then have "\<forall>q \<in> set (probes pr). probe_id q \<noteq> h" by (simp add: lookup_id_None)
  then have "filter (\<lambda>q. probe_id q \<noteq> h) (probes pr) = probes pr" by (simp add: filter_id_conv)
  with None show ?thesis by (simp add: Close_def)
next
  case (Some p)
  then show ?thesis by (simp add: Close_def)
qed

lemma Close_fields: "next_id (Close h pr) = next_id pr \<and> onceMode (Close h pr) = onceMode pr"
  by (simp add: Close_def split: option.splits)

lemma reg_inv_Close:
  assumes inv: "reg_inv pr"
  shows "reg_inv (Close h pr)"
proof (cases "lookup_id h (probes pr)")
  case None
  then have "Close h pr = pr" by (simp add: Close_def)
  with inv show ?thesis by simp
next
  case (Some p)
  from inv have dist: "distinct (map probe_id (probes pr))" by (simp add: reg_inv_def)
  from split_by_id [OF dist Some] obtain xs ys where
    ps: "probes pr = xs @ p # ys" and hp: "probe_id p = h"
    and nx: "\<forall>q \<in> set xs. probe_id q \<noteq> h" and ny: "\<forall>q \<in> set ys. probe_id q \<noteq> h"
    by blast
  have ps': "probes (Close h pr) = xs @ ys"
    by (simp only: Close_probes ps filter_id_split [OF nx ny hp])
  have clk': "clk (Close h pr) = stop_probe p (clk pr)"
    using Some by (simp add: Close_def)
  have once': "onceMode (Close h pr) = onceMode pr" by (simp add: Close_fields)
  let ?wp = "case phase p of Waiting k \<Rightarrow> [k] | _ \<Rightarrow> []"
  have W: "waiting_handles (probes pr) = waiting_handles xs @ ?wp @ waiting_handles ys"
    by (simp add: ps waiting_handles_append waiting_handles_Cons)
  have W': "waiting_handles (probes (Close h pr)) = waiting_handles xs @ waiting_handles ys"
    by (simp add: ps' waiting_handles_append)
  from inv W have dW: "distinct (waiting_handles xs @ ?wp @ waiting_handles ys)"
    and sW: "set (waiting_handles xs @ ?wp @ waiting_handles ys) = live_tickers (clk pr)"
    and pos: "\<forall>a \<in> set (tickers (clk pr)). 0 < interval a"
    by (simp_all add: reg_inv_def)
  have c1: "\<not> onceMode (Close h pr)" using inv once' by (simp add: reg_inv_def)
  have c2: "distinct (map probe_id (probes (Close h pr)))"
    using dist by (simp add: ps ps')
  have c3: "\<forall>q \<in> set (probes (Close h pr)). probe_ok q"
    using inv by (simp add: reg_inv_def ps ps')
  have c4: "distinct (waiting_handles (probes (Close h pr)))"
    using dW by (auto simp: W')
  have c5: "set (waiting_handles (probes (Close h pr))) = live_tickers (clk (Close h pr))"
  proof (cases "phase p")
    case (Waiting k)
    with sW have "k \<in> live_tickers (clk pr)" by auto
    then have "k < length (tickers (clk pr))" by (rule live_bound)
    then have "live_tickers (clk (Close h pr)) = live_tickers (clk pr) - {k}"
      by (simp add: clk' stop_probe_def Waiting live_Stop_at)
    moreover from dW Waiting have "k \<notin> set (waiting_handles xs)" "k \<notin> set (waiting_handles ys)"
      by auto
    ultimately show ?thesis using sW Waiting by (auto simp: W')
  next
    case PendingStart
    with sW show ?thesis by (simp add: W' clk' stop_probe_def)
  next
    case Stopped
    with sW show ?thesis by (simp add: W' clk' stop_probe_def)
  qed
  have c6: "\<forall>a \<in> set (tickers (clk (Close h pr))). 0 < interval a"
    using pos positive_Stop_at [OF pos] by (simp add: clk' stop_probe_def split: phase.splits)
  from c1 c2 c3 c4 c5 c6 show ?thesis by (simp add: reg_inv_def)
qed

lemma Run_fresh:
  assumes "0 < d" and "lookup_name n (probes pr) = None"
  shows "Run n d ls tg pr =
           Inr (next_id pr,
                pr\<lparr>probes := probes pr @
                      [newProbe (next_id pr) n d ls tg],
                   next_id := Suc (next_id pr)\<rparr>)"
  using assms by (simp add: Run_def Let_def newProbe_def)

lemma reg_inv_Run:
  assumes inv: "reg_inv pr" and d: "0 < d"
    and fresh: "\<forall>q \<in> set (probes pr). probe_id q \<noteq> next_id pr"
  shows "reg_inv (pr\<lparr>probes := probes pr @
                      [newProbe (next_id pr) n d ls tg],
                   next_id := Suc (next_id pr)\<rparr>)"
  using inv d fresh
  by (auto simp: reg_inv_def probe_ok_def newProbe_def waiting_handles_append
        waiting_handles_Cons waiting_handles_Nil)

lemma reg_inv_AdvanceTime:
  assumes inv: "reg_inv pr"
  shows "\<exists>c. AdvanceTime d pr = Some (pr\<lparr>clk := c\<rparr>) \<and> reg_inv (pr\<lparr>clk := c\<rparr>)"
proof -
  from inv have pos: "\<forall>a \<in> set (tickers (clk pr)). 0 < interval a" by (simp add: reg_inv_def)
  from Advance_total [OF pos, of d] obtain c where c: "Advance d (clk pr) = Some c" by blast
  note same = same_tickers_Advance [OF c]
  from inv same_tickers_live [OF same] same_tickers_positive [OF same pos]
  have "reg_inv (pr\<lparr>clk := c\<rparr>)" by (simp add: reg_inv_def)
  with c show ?thesis by (intro exI [of _ c]) (simp add: AdvanceTime_def)
qed

lemma reg_inv_Step:
  assumes inv: "reg_inv pr"
  shows "\<exists>pr'. Step h pr = Some pr' \<and> reg_inv pr' \<and> next_id pr' = next_id pr \<and>
           map name (probes pr') = map name (probes pr) \<and>
           map at_entry (probes pr') = map (\<lambda>(i, b). (i, i \<noteq> h \<and> b)) (map at_entry (probes pr))"
proof (cases "lookup_id h (probes pr)")
  case None
  then have nh: "\<forall>q \<in> set (probes pr). probe_id q \<noteq> h" by (simp add: lookup_id_None)
  have "map (\<lambda>(i, b). (i, i \<noteq> h \<and> b)) (map at_entry (probes pr)) = map at_entry (probes pr)"
    using nh by (simp add: at_entry_def)
  with None inv show ?thesis by (simp add: Step_def)
next
  case (Some p)
  from inv have dist: "distinct (map probe_id (probes pr))"
    and once: "\<not> onceMode pr"
    and pos: "\<forall>a \<in> set (tickers (clk pr)). 0 < interval a"
    and dW: "distinct (waiting_handles (probes pr))"
    and sW: "set (waiting_handles (probes pr)) = live_tickers (clk pr)"
    and ok: "\<forall>q \<in> set (probes pr). probe_ok q"
    by (simp_all add: reg_inv_def)
  from split_by_id [OF dist Some] obtain xs ys where
    ps: "probes pr = xs @ p # ys" and hp: "probe_id p = h"
    and nx: "\<forall>q \<in> set xs. probe_id q \<noteq> h" and ny: "\<forall>q \<in> set ys. probe_id q \<noteq> h"
    by blast
  from ok ps have okp: "probe_ok p" by simp
  then have dp: "0 < probe_interval p" and nst: "phase p \<noteq> Stopped"
    by (simp_all add: probe_ok_def)
  let ?wp = "case phase p of Waiting k \<Rightarrow> [k] | _ \<Rightarrow> []"
  have W: "waiting_handles (probes pr) = waiting_handles xs @ ?wp @ waiting_handles ys"
    by (simp add: ps waiting_handles_append waiting_handles_Cons)
  have "\<exists>p' c'. loop_step False p (clk pr) = Some (p', c') \<and>
           probe_id p' = h \<and> name p' = name p \<and> probe_interval p' = probe_interval p \<and>
           (\<exists>k. phase p' = Waiting k \<and> recorded p' \<and>
                distinct (waiting_handles xs @ [k] @ waiting_handles ys) \<and>
                set (waiting_handles xs @ [k] @ waiting_handles ys) = live_tickers c') \<and>
           (\<forall>a \<in> set (tickers c'). 0 < interval a)"
  proof (cases "phase p")
    case PendingStart
    from loop_step_pending [OF pos dp PendingStart] obtain p' c' where
      s: "loop_step False p (clk pr) = Some (p', c')" "probe_id p' = probe_id p"
         "name p' = name p" "probe_interval p' = probe_interval p"
         "phase p' = Waiting (length (tickers (clk pr)))"
         "live_tickers c' = insert (length (tickers (clk pr))) (live_tickers (clk pr))"
         "\<forall>a \<in> set (tickers c'). 0 < interval a" "recorded p'"
      by blast
    let ?k = "length (tickers (clk pr))"
    from sW W PendingStart have sxy: "set (waiting_handles xs @ waiting_handles ys) = live_tickers (clk pr)"
      by simp
    then have "?k \<notin> set (waiting_handles xs @ waiting_handles ys)"
      using live_bound [of ?k "clk pr"] by auto
    with dW W PendingStart have "distinct (waiting_handles xs @ [?k] @ waiting_handles ys)"
      by simp
    moreover from sxy s(6) have "set (waiting_handles xs @ [?k] @ waiting_handles ys) = live_tickers c'"
      by auto
    ultimately show ?thesis using s hp by blast
  next
    case (Waiting k)
    from okp Waiting have "recorded p" by (simp add: probe_ok_def)
    from loop_step_waiting [OF pos Waiting this, of False] obtain p' c' where
      s: "loop_step False p (clk pr) = Some (p', c')" "probe_id p' = probe_id p"
         "name p' = name p" "probe_interval p' = probe_interval p"
         "phase p' = Waiting k" "live_tickers c' = live_tickers (clk pr)"
         "\<forall>a \<in> set (tickers c'). 0 < interval a" "recorded p'"
      by blast
    from dW sW W Waiting s(6)
    have dk: "distinct (waiting_handles xs @ [k] @ waiting_handles ys) \<and>
          set (waiting_handles xs @ [k] @ waiting_handles ys) = live_tickers c'"
      by simp
    with s hp show ?thesis by blast
  next
    case Stopped
    with nst show ?thesis by simp
  qed
  then obtain p' c' k where
    s: "loop_step False p (clk pr) = Some (p', c')" and hp': "probe_id p' = h"
    and np': "name p' = name p" and dp': "probe_interval p' = probe_interval p"
    and ph': "phase p' = Waiting k" and rec': "recorded p'"
    and dW': "distinct (waiting_handles xs @ [k] @ waiting_handles ys)"
    and sW': "set (waiting_handles xs @ [k] @ waiting_handles ys) = live_tickers c'"
    and pos': "\<forall>a \<in> set (tickers c'). 0 < interval a"
    by blast
  let ?pr' = "pr\<lparr>clk := c', probes := xs @ p' # ys\<rparr>"
  have mp: "map (\<lambda>q. if probe_id q = h then p' else q) (probes pr) = xs @ p' # ys"
    by (simp only: ps map_id_split [OF nx ny hp])
  have step: "Step h pr = Some ?pr'"
    using Some s once by (simp add: Step_def mp)
  have W': "waiting_handles (xs @ p' # ys) = waiting_handles xs @ [k] @ waiting_handles ys"
    by (simp add: waiting_handles_append waiting_handles_Cons ph')
  from dp dp' ph' rec' have okp': "probe_ok p'" by (simp add: probe_ok_def)
  have r: "reg_inv ?pr'"
    using once dist ok okp' hp hp' dW' sW' pos'
    by (simp add: reg_inv_def ps W')
  have pe: "map at_entry (xs @ p' # ys) = map (\<lambda>(i, b). (i, i \<noteq> h \<and> b)) (map at_entry (xs @ p # ys))"
    using nx ny hp hp' ph' by (simp add: at_entry_def)
  from step r np' pe show ?thesis by (simp add: ps)
qed

subsection \<open>Histories\<close>

lemma prober_run_snoc:
  "prober_run (ops @ [x]) pr =
     (case prober_run ops pr of None \<Rightarrow> None | Some pr' \<Rightarrow> prober_step x pr')"
  by (induction ops arbitrary: pr) (auto split: option.splits)

lemma registered_snoc: "registered (ops @ [x]) = registered ops + registered [x]"
  by (induction ops rule: registered.induct) simp_all

lemma run_names_snoc: "run_names (ops @ [x]) = run_names ops @ run_names [x]"
  by (induction ops rule: run_names.induct) simp_all

lemma wf_pops_snoc: "wf_pops n (ops @ [x]) \<longleftrightarrow> wf_pops n ops \<and> wf_pops (n + registered ops) [x]"
  by (induction n ops rule: wf_pops.induct) simp_all

lemma wf_pops_handles:
  "wf_pops n ops \<Longrightarrow> DoClose h \<in> set ops \<or> DoStep h \<in> set ops \<Longrightarrow> h < n + registered ops"
  by (induction n ops rule: wf_pops.induct) auto

lemma trace_inv_ids:
  assumes "trace_inv ops pr"
  shows "map probe_id (probes pr) = filter (\<lambda>h. DoClose h \<notin> set ops) [0..<registered ops]"
proof -
  have "map probe_id (probes pr) = map fst (map at_entry (probes pr))"
    by (simp add: at_entry_def comp_def)
  also from assms have "\<dots> = map fst (map (\<lambda>h. (h, DoStep h \<notin> set ops))
                      (filter (\<lambda>h. DoClose h \<notin> set ops) [0..<registered ops]))"
    by (simp add: trace_inv_def)
  finally show ?thesis by (simp add: comp_def)
qed

lemma at_entry_filter:
  "map at_entry (filter (\<lambda>q. probe_id q \<noteq> h) ps) = filter (\<lambda>ib. fst ib \<noteq> h) (map at_entry ps)"
  by (induction ps) (simp_all add: at_entry_def)

lemma prober_run_inv:
  "wf_pops 0 ops \<Longrightarrow> distinct (run_names ops) \<Longrightarrow>
   \<exists>pr. prober_run ops (newForTest newFakeTime) = Some pr \<and> reg_inv pr \<and> trace_inv ops pr"
proof (induction ops rule: rev_induct)
  case Nil
  have "reg_inv (newForTest newFakeTime)"
    by (simp add: reg_inv_def newForTest_def newFakeTime_def waiting_handles_Nil live_tickers_def)
  moreover have "trace_inv [] (newForTest newFakeTime)"
    by (simp add: trace_inv_def newForTest_def)
  ultimately show ?case by simp
next
  case (snoc x ops)
  from snoc.prems have wf: "wf_pops 0 ops" and wfx: "wf_pops (registered ops) [x]"
    and dn: "distinct (run_names ops)" and dnx: "set (run_names [x]) \<inter> set (run_names ops) = {}"
    by (auto simp: wf_pops_snoc run_names_snoc)
  from snoc.IH [OF wf dn] obtain pr where
    run: "prober_run ops (newForTest newFakeTime) = Some pr" and inv: "reg_inv pr"
    and tr: "trace_inv ops pr" by blast
  let ?N = "registered ops"
  let ?L = "filter (\<lambda>h. DoClose h \<notin> set ops) [0..<?N]"
  from tr have nid: "next_id pr = ?N"
    and pe: "map at_entry (probes pr) = map (\<lambda>h. (h, DoStep h \<notin> set ops)) ?L"
    and nm: "set (map name (probes pr)) \<subseteq> set (run_names ops)"
    by (simp_all add: trace_inv_def)
  note ids = trace_inv_ids [OF tr]
  have step: "\<exists>pr'. prober_step x pr = Some pr' \<and> reg_inv pr' \<and> trace_inv (ops @ [x]) pr'"
  proof (cases x)
    case (DoRun n d ls tg)
    with wfx have d: "0 < d" by simp
    from DoRun dnx have "n \<notin> set (run_names ops)" by simp
    with nm have "\<forall>q \<in> set (probes pr). name q \<noteq> n" by auto
    then have fresh: "lookup_name n (probes pr) = None"
      by (auto simp: lookup_name_def find_None_iff)
    have "\<forall>i \<in> set (map probe_id (probes pr)). i < ?N" by (simp add: ids)
    then have idf: "\<forall>q \<in> set (probes pr). probe_id q \<noteq> next_id pr" by (auto simp: nid)
    let ?p = "newProbe (next_id pr) n d ls tg"
    let ?pr' = "pr\<lparr>probes := probes pr @ [?p], next_id := Suc (next_id pr)\<rparr>"
    from Run_fresh [OF d fresh] DoRun have s: "prober_step x pr = Some ?pr'" by simp
    note r = reg_inv_Run [OF inv d idf, of n ls tg]
    from wf_pops_handles [OF wf, of ?N] have nc: "DoClose ?N \<notin> set ops" and ns: "DoStep ?N \<notin> set ops"
      by auto
    have "map at_entry (probes ?pr') =
            map (\<lambda>h. (h, DoStep h \<notin> set (ops @ [x]))) (filter (\<lambda>h. DoClose h \<notin> set (ops @ [x])) [0..<Suc ?N])"
      using nc ns by (simp add: pe DoRun at_entry_def newProbe_def nid)
    moreover have "set (map name (probes ?pr')) \<subseteq> set (run_names (ops @ [x]))"
      using nm by (auto simp: run_names_snoc DoRun newProbe_def)
    ultimately have "trace_inv (ops @ [x]) ?pr'"
      by (simp add: trace_inv_def registered_snoc DoRun nid)
    with s r show ?thesis by blast
  next
    case (DoClose h)
    have s: "prober_step x pr = Some (Close h pr)" by (simp add: DoClose)
    note r = reg_inv_Close [OF inv, of h]
    have "filter (\<lambda>ib. fst ib \<noteq> h) (map (\<lambda>h. (h, DoStep h \<notin> set ops)) ?L)
            = map (\<lambda>h. (h, DoStep h \<notin> set ops)) (filter (\<lambda>h'. h' \<noteq> h) ?L)"
      by (simp add: filter_map comp_def)
    also have "filter (\<lambda>h'. h' \<noteq> h) ?L = filter (\<lambda>h'. DoClose h' \<notin> set (ops @ [x])) [0..<?N]"
      by (auto simp: DoClose intro: filter_cong)
    finally have "map at_entry (probes (Close h pr)) =
            map (\<lambda>h. (h, DoStep h \<notin> set (ops @ [x]))) (filter (\<lambda>h. DoClose h \<notin> set (ops @ [x])) [0..<?N])"
      by (simp add: Close_probes at_entry_filter pe DoClose)
    moreover have "set (map name (probes (Close h pr))) \<subseteq> set (run_names (ops @ [x]))"
      using nm by (auto simp: Close_probes run_names_snoc)
    ultimately have "trace_inv (ops @ [x]) (Close h pr)"
      by (simp add: trace_inv_def registered_snoc DoClose nid Close_fields)
    with s r show ?thesis by blast
  next
    case (DoStep h)
    from reg_inv_Step [OF inv, of h] obtain pr' where
      s: "Step h pr = Some pr'" and r: "reg_inv pr'" and n': "next_id pr' = next_id pr"
      and names: "map name (probes pr') = map name (probes pr)"
      and pe': "map at_entry (probes pr') = map (\<lambda>(i, b). (i, i \<noteq> h \<and> b)) (map at_entry (probes pr))"
      by blast
    have "map at_entry (probes pr') =
            map (\<lambda>h. (h, DoStep h \<notin> set (ops @ [x]))) (filter (\<lambda>h. DoClose h \<notin> set (ops @ [x])) [0..<?N])"
      by (auto simp: pe' pe DoStep)
    moreover have "set (map name (probes pr')) \<subseteq> set (run_names (ops @ [x]))"
      using nm names by (simp add: run_names_snoc DoStep)
    ultimately have "trace_inv (ops @ [x]) pr'"
      by (simp add: trace_inv_def registered_snoc DoStep nid n')
    with s r show ?thesis by (simp add: DoStep)
  next
    case (DoAdvance d)
    from reg_inv_AdvanceTime [OF inv, of d] obtain c where
      s: "AdvanceTime d pr = Some (pr\<lparr>clk := c\<rparr>)" and r: "reg_inv (pr\<lparr>clk := c\<rparr>)" by blast
    from tr have "trace_inv (ops @ [x]) (pr\<lparr>clk := c\<rparr>)"
      by (simp add: trace_inv_def registered_snoc run_names_snoc DoAdvance)
    with s r show ?thesis by (simp add: DoAdvance)
  qed
  with run show ?case by (simp add: prober_run_snoc)
qed

lemma count_not_closed:
  assumes "wf_pops 0 ops"
  shows "length (filter (\<lambda>h. DoClose h \<notin> set ops) [0..<registered ops])
           = registered ops - card {h. DoClose h \<in> set ops}"
proof -
  let ?C = "{h. DoClose h \<in> set ops}"
  from wf_pops_handles [OF assms] have sub: "?C \<subseteq> {0..<registered ops}" by auto
  then have fin: "finite ?C" by (rule finite_subset) simp
  have "length (filter (\<lambda>h. DoClose h \<notin> set ops) [0..<registered ops])
          = card ({h. DoClose h \<notin> set ops} \<inter> set [0..<registered ops])"
    by (simp add: distinct_length_filter)
  also have "{h. DoClose h \<notin> set ops} \<inter> set [0..<registered ops] = {0..<registered ops} - ?C"
    by auto
  also have "card ({0..<registered ops} - ?C) = card {0..<registered ops} - card ?C"
    using sub fin by (simp add: card_Diff_subset)
  finally show ?thesis by simp
qed

lemma active_counts_registry:
  assumes wf: "wf_pops 0 ops" and dn: "distinct (run_names ops)"
  shows "\<exists>pr. prober_run ops (newForTest newFakeTime) = Some pr \<and>
           activeProbes pr = registered ops - card {h. DoClose h \<in> set ops} \<and>
           activeTickers (clk pr) =
             length (filter (\<lambda>h. DoClose h \<notin> set ops \<and> DoStep h \<in> set ops) [0..<registered ops])"
proof -
  from prober_run_inv [OF wf dn] obtain pr where
    run: "prober_run ops (newForTest newFakeTime) = Some pr" and inv: "reg_inv pr"
    and tr: "trace_inv ops pr" by blast
  let ?L = "filter (\<lambda>h. DoClose h \<notin> set ops) [0..<registered ops]"
  from tr have pe: "map at_entry (probes pr) = map (\<lambda>h. (h, DoStep h \<notin> set ops)) ?L"
    by (simp add: trace_inv_def)
  have "activeProbes pr = length (map at_entry (probes pr))" by (simp add: activeProbes_def)
  also have "\<dots> = length ?L" by (simp only: pe length_map)
  finally have ap: "activeProbes pr = registered ops - card {h. DoClose h \<in> set ops}"
    by (simp add: count_not_closed [OF wf])
  from inv have "activeTickers (clk pr) = length (waiting_handles (probes pr))"
    by (simp add: live_tickers_card reg_inv_def [of pr] distinct_card [symmetric])
  also have "\<dots> = length (filter (\<lambda>p. \<exists>k. phase p = Waiting k) (probes pr))"
    by (rule length_waiting_handles)
  also have "filter (\<lambda>p. \<exists>k. phase p = Waiting k) (probes pr)
               = filter (\<lambda>p. \<not> snd (at_entry p)) (probes pr)"
  proof (rule filter_cong [OF refl])
    fix p assume "p \<in> set (probes pr)"
    with inv have "phase p \<noteq> Stopped" by (simp add: reg_inv_def probe_ok_def)
    then show "(\<exists>k. phase p = Waiting k) = (\<not> snd (at_entry p))"
      by (cases "phase p") (simp_all add: at_entry_def)
  qed
  also have "length (filter (\<lambda>p. \<not> snd (at_entry p)) (probes pr))
               = length (filter (\<lambda>ib. \<not> snd ib) (map at_entry (probes pr)))"
    by (simp add: filter_map comp_def)
  also have "\<dots> = length (filter (\<lambda>h. DoClose h \<notin> set ops \<and> DoStep h \<in> set ops) [0..<registered ops])"
    by (simp add: pe filter_map comp_def conj_commute)
  finally show ?thesis using run ap by blast
qed

subsection \<open>The timing test on the model\<close>

text \<open>
  The steps of \<^verbatim>\<open>TestProberTiming\<close>, with the goroutine of the probe scheduled after
  each of them: the target runs at the registration, again after the advance by
  one and a half intervals, not after the further quarter of an interval, and
  again after one more interval. The start time of the latest snapshot shows it.
\<close>

lemma test_prober_timing:
  "map_option (\<lambda>pr. map lastResult (probes pr))
     (prober_run [DoRun ''test-probe'' probeInterval [] (Return None), DoStep 0]
        (newForTest newFakeTime))
     = Some [Some \<lparr>start_time = 0, end_time = 0, success = True, latency = 0\<rparr>] \<and>
   map_option (\<lambda>pr. map lastResult (probes pr))
     (prober_run [DoRun ''test-probe'' probeInterval [] (Return None), DoStep 0,
                  DoAdvance (12 * Second), DoStep 0]
        (newForTest newFakeTime))
     = Some [Some \<lparr>start_time = 12 * Second, end_time = 12 * Second, success = True, latency = 0\<rparr>] \<and>
   map_option (\<lambda>pr. map lastResult (probes pr))
     (prober_run [DoRun ''test-probe'' probeInterval [] (Return None), DoStep 0,
                  DoAdvance (12 * Second), DoStep 0, DoAdvance (2 * Second), DoStep 0]
        (newForTest newFakeTime))
     = Some [Some \<lparr>start_time = 12 * Second, end_time = 12 * Second, success = True, latency = 0\<rparr>] \<and>
   map_option (\<lambda>pr. map lastResult (probes pr))
     (prober_run [DoRun ''test-probe'' probeInterval [] (Return None), DoStep 0,
                  DoAdvance (12 * Second), DoStep 0, DoAdvance (2 * Second), DoStep 0,
                  DoAdvance (8 * Second), DoStep 0]
        (newForTest newFakeTime))
     = Some [Some \<lparr>start_time = 22 * Second, end_time = 22 * Second, success = True, latency = 0\<rparr>]"
  by code_simp

subsection \<open>The gauges of a probe\<close>







subsection \<open>Active tickers and active probes\<close>

text \<open>
  Claim C7. After any well-formed sequence of calls on a fresh fake clock,
  \<^verbatim>\<open>activeTickers\<close> is the number of tickers that were created and on which
  \<^verbatim>\<open>Stop\<close> was not called. Any well-formed history of a fresh looping registry in
  which no name is registered twice can be run, and afterwards \<^verbatim>\<open>activeProbes\<close> is
  the number \<open>N\<close> of registrations minus the number \<open>K\<close> of probes that were
  closed, and the active tickers of the clock are the tickers of the probes that
  were not closed and whose run loop has started: the ticker of a closed probe is
  not among them.
\<close>

theorem active_tickers_and_probes:
  assumes "wf_ops 0 cops" and "clock_run cops newFakeTime = Some t"
    and "wf_pops 0 ops" and "distinct (run_names ops)"
  shows "activeTickers t = length (filter (\<lambda>h. OpStop h \<notin> set cops) [0..<created cops]) \<and>
         (\<exists>pr. prober_run ops (newForTest newFakeTime) = Some pr \<and>
               activeProbes pr = registered ops - card {h. DoClose h \<in> set ops} \<and>
               activeTickers (clk pr) =
                 length (filter (\<lambda>h. DoClose h \<notin> set ops \<and> DoStep h \<in> set ops)
                           [0..<registered ops]))"
  using activeTickers_trace [OF assms(1,2)] active_counts_registry [OF assms(3,4)]
  by blast

theorem active_tickers_and_probes_witness:
  "activeTickers (the (clock_run [OpNewTicker probeInterval, OpNewTicker Second, OpStop 0,
                                  OpAdvance (9 * Second), OpNewTicker Second] newFakeTime)) = 2 \<and>
   (\<exists>pr. prober_run [DoRun ''probe0'' probeInterval [] (Return None),
                     DoRun ''probe1'' probeInterval [] (Return None),
                     DoStep 0, DoStep 1,
                     DoRun ''probe2'' probeInterval [] (Return None),
                     DoClose 1, DoAdvance (9 * Second), DoStep 0, DoClose 1]
           (newForTest newFakeTime) = Some pr \<and>
         activeProbes pr = 2 \<and> activeTickers (clk pr) = 1)"
proof -
  let ?cops = "[OpNewTicker probeInterval, OpNewTicker Second, OpStop 0,
                OpAdvance (9 * Second), OpNewTicker Second]"
  let ?ops = "[DoRun ''probe0'' probeInterval [] (Return None),
               DoRun ''probe1'' probeInterval [] (Return None),
               DoStep 0, DoStep 1,
               DoRun ''probe2'' probeInterval [] (Return None),
               DoClose 1, DoAdvance (9 * Second), DoStep 0, DoClose 1]"
  have wfc: "wf_ops 0 ?cops" by simp
  let ?t = "\<lparr>curTime = 9000000000,
      tickers = [\<lparr>ch = Some 9000000000, interval = 8000000000, next = 16000000000, stopped = True\<rparr>,
                 \<lparr>ch = Some 9000000000, interval = 1000000000, next = 9000000000, stopped = False\<rparr>,
                 \<lparr>ch = None, interval = 1000000000, next = 10000000000, stopped = False\<rparr>]\<rparr>"
  have t: "clock_run ?cops newFakeTime = Some ?t" by code_simp
  have wf: "wf_pops 0 ?ops" by (simp add: probeInterval_def Second_def)
  have dn: "distinct (run_names ?ops)" by simp
  have closed: "{h. DoClose h \<in> set ?ops} = {1}" by auto
  have u3: "[0..<3] = [0, 1, 2]" by (simp add: upt_rec)
  have c3: "created ?cops = 3" and r3: "registered ?ops = 3" by simp_all
  from active_tickers_and_probes [OF wfc t wf dn]
  have "activeTickers ?t = 2 \<and>
        (\<exists>pr. prober_run ?ops (newForTest newFakeTime) = Some pr \<and>
               activeProbes pr = 2 \<and> activeTickers (clk pr) = 1)"
    unfolding closed c3 r3 u3 by simp
  with t show ?thesis by simp
qed

subsection \<open>Registration\<close>

text \<open>
  Claim C8. A call of \<^verbatim>\<open>Run\<close> with an interval that is not positive fails with
  the precondition violation, and the registry and its clock are as before: no
  probe was stored and no loop started. A call with a positive interval and a name
  that is not registered stores the new probe, with its run loop at its entry, and
  returns its handle. In a looping registry that satisfies the invariant the loop
  of the new probe, the first time its goroutine is scheduled, runs the target,
  records the result and leaves its entry.
\<close>

theorem Run_fails_fast_or_installs:
  "(d \<le> 0 \<longrightarrow>
      Run n d ls tg pr = Inl NonPositiveInterval \<and> prober_step (DoRun n d ls tg) pr = Some pr) \<and>
   (0 < d \<and> lookup_name n (probes pr) = None \<longrightarrow>
      Run n d ls tg pr =
        Inr (next_id pr,
             pr\<lparr>probes := probes pr @ [newProbe (next_id pr) n d ls tg],
                next_id := Suc (next_id pr)\<rparr>)) \<and>
   (0 < d \<and> reg_inv pr \<and> (\<forall>q \<in> set (probes pr). probe_id q \<noteq> next_id pr) \<longrightarrow>
      (\<exists>pr'. Step (next_id pr)
                (pr\<lparr>probes := probes pr @ [newProbe (next_id pr) n d ls tg],
                    next_id := Suc (next_id pr)\<rparr>) = Some pr' \<and>
             length (probes pr') = Suc (length (probes pr)) \<and>
             probe_id (last (probes pr')) = next_id pr \<and>
             name (last (probes pr')) = n \<and>
             phase (last (probes pr')) \<noteq> PendingStart \<and>
             lastResult (last (probes pr')) \<noteq> None))"
proof (intro conjI impI)
  assume "d \<le> 0"
  then show "Run n d ls tg pr = Inl NonPositiveInterval" by (simp add: Run_def)
  then show "prober_step (DoRun n d ls tg) pr = Some pr" by simp
next
  assume "0 < d \<and> lookup_name n (probes pr) = None"
  then show "Run n d ls tg pr =
        Inr (next_id pr,
             pr\<lparr>probes := probes pr @ [newProbe (next_id pr) n d ls tg],
                next_id := Suc (next_id pr)\<rparr>)"
    by (simp add: Run_fresh)
next
  let ?pr1 = "pr\<lparr>probes := probes pr @ [newProbe (next_id pr) n d ls tg],
                 next_id := Suc (next_id pr)\<rparr>"
  assume a: "0 < d \<and> reg_inv pr \<and> (\<forall>q \<in> set (probes pr). probe_id q \<noteq> next_id pr)"
  then have inv1: "reg_inv ?pr1" by (simp add: reg_inv_Run)
  from reg_inv_Step [OF inv1, of "next_id pr"] obtain pr' where
    s: "Step (next_id pr) ?pr1 = Some pr'" and inv': "reg_inv pr'"
    and names: "map name (probes pr') = map name (probes ?pr1)"
    and pe: "map at_entry (probes pr') =
               map (\<lambda>(i, b). (i, i \<noteq> next_id pr \<and> b)) (map at_entry (probes ?pr1))"
    by blast
  from names have "length (map name (probes pr')) = length (map name (probes ?pr1))"
    by simp
  then have len: "length (probes pr') = Suc (length (probes pr))"
    by simp
  then have ne: "probes pr' \<noteq> []" by auto
  from names have "name (last (probes pr')) = last (map name (probes ?pr1))"
    using ne by (metis last_map)
  then have nm: "name (last (probes pr')) = n" by (simp add: newProbe_def)
  from pe have "at_entry (last (probes pr')) =
      last (map (\<lambda>(i, b). (i, i \<noteq> next_id pr \<and> b)) (map at_entry (probes ?pr1)))"
    using ne by (metis last_map)
  then have pl: "at_entry (last (probes pr')) = (next_id pr, False)"
    by (simp add: at_entry_def newProbe_def)
  from ne have "last (probes pr') \<in> set (probes pr')" by simp
  with inv' have "probe_ok (last (probes pr'))" by (simp add: reg_inv_def)
  with pl have "lastResult (last (probes pr')) \<noteq> None"
    by (auto simp: probe_ok_def at_entry_def recorded_def)
  with s len nm pl
  show "\<exists>pr'. Step (next_id pr) ?pr1 = Some pr' \<and>
             length (probes pr') = Suc (length (probes pr)) \<and>
             probe_id (last (probes pr')) = next_id pr \<and>
             name (last (probes pr')) = n \<and>
             phase (last (probes pr')) \<noteq> PendingStart \<and>
             lastResult (last (probes pr')) \<noteq> None"
    by (auto simp: at_entry_def)
qed

theorem Run_fails_fast_or_installs_witness:
  "Run ''probe'' 0 [] (Return None) (newForTest newFakeTime) = Inl NonPositiveInterval \<and>
   Run ''probe'' (- Second) [] (Return None) (newForTest newFakeTime) = Inl NonPositiveInterval \<and>
   Run ''probe'' probeInterval [] (Return None) (newForTest newFakeTime)
     = Inr (0, \<lparr>clk = newFakeTime,
                 probes = [newProbe 0 ''probe'' probeInterval [] (Return None)],
                 metricsNamespace = ''prober'', onceMode = False, next_id = 1\<rparr>) \<and>
   (\<exists>pr'. Step 0 \<lparr>clk = newFakeTime,
                 probes = [newProbe 0 ''probe'' probeInterval [] (Return None)],
                 metricsNamespace = ''prober'', onceMode = False, next_id = 1\<rparr> = Some pr' \<and>
          phase (last (probes pr')) \<noteq> PendingStart \<and> lastResult (last (probes pr')) \<noteq> None)"
proof -
  let ?pr = "newForTest newFakeTime"
  have z: "(0::int) \<le> 0" and m: "- Second \<le> 0" by (simp_all add: Second_def)
  have p: "0 < probeInterval" by (simp add: probeInterval_def Second_def)
  have f: "lookup_name ''probe'' (probes ?pr) = None"
    by (simp add: lookup_name_def newForTest_def)
  have r: "reg_inv ?pr"
    by (simp add: reg_inv_def newForTest_def newFakeTime_def waiting_handles_def live_tickers_def)
  have i: "\<forall>q \<in> set (probes ?pr). probe_id q \<noteq> next_id ?pr" by (simp add: newForTest_def)
  from Run_fails_fast_or_installs [of 0 "''probe''" "[]" "Return None" ?pr] z
  have a: "Run ''probe'' 0 [] (Return None) ?pr = Inl NonPositiveInterval"
    by blast
  from Run_fails_fast_or_installs [of "- Second" "''probe''" "[]" "Return None" ?pr] m
  have b: "Run ''probe'' (- Second) [] (Return None) ?pr = Inl NonPositiveInterval"
    by blast
  note T = Run_fails_fast_or_installs [of probeInterval "''probe''" "[]" "Return None" ?pr]
  from T p f
  have c: "Run ''probe'' probeInterval [] (Return None) ?pr
     = Inr (0, \<lparr>clk = newFakeTime,
                 probes = [newProbe 0 ''probe'' probeInterval [] (Return None)],
                 metricsNamespace = ''prober'', onceMode = False, next_id = 1\<rparr>)"
    by (simp add: newForTest_def)
  from T p r i
  have e: "\<exists>pr'. Step 0 \<lparr>clk = newFakeTime,
                 probes = [newProbe 0 ''probe'' probeInterval [] (Return None)],
                 metricsNamespace = ''prober'', onceMode = False, next_id = 1\<rparr> = Some pr' \<and>
          phase (last (probes pr')) \<noteq> PendingStart \<and> lastResult (last (probes pr')) \<noteq> None"
    by (auto simp: newForTest_def)
  from a b c e show ?thesis by blast
qed

end
